theory Spec2Isabelle
  imports Complex_Main "HOL-Library.Word" "HOL-Library.Log_Nat"
begin

unbundle bit_operations_syntax

section \<open>JavaScript values\<close>

subsection \<open>Strings\<close>

text \<open>
  A JavaScript string is a sequence of 16-bit code units. String literals of the source
  are ASCII; \<open>js\<close> turns an Isabelle literal into its code units.
\<close>

type_synonym jsstring = "16 word list"

definition js :: "string \<Rightarrow> jsstring" where
  "js s = map of_char s"

subsection \<open>Numbers\<close>

text \<open>
  A JavaScript number is an IEEE 754 binary64 value. A finite non-zero value and \<open>+0\<close>
  are \<open>Fin r\<close> with \<open>r\<close> the exact rational value; \<open>-0\<close>, the infinities and NaN are
  constructors of their own. Every arithmetic operation computes the exact rational
  result and rounds it to the nearest binary64 value, ties to even (\<open>fl\<close>).
\<close>

datatype jsnum = Fin rat | NegZero | PosInf | NegInf | NaN

definition pow2 :: "int \<Rightarrow> rat" where
  "pow2 e = 2 powi e"

definition ilog2 :: "rat \<Rightarrow> int" where
  \<comment> \<open>for \<open>a > 0\<close>: the \<open>e\<close> with \<open>2^e \<le> a < 2^(e+1)\<close>\<close>
  "ilog2 a = (let (p, q) = quotient_of a; e = bitlen p - bitlen q
              in if pow2 e \<le> a then e else e - 1)"

definition round_half_even :: "rat \<Rightarrow> int" where
  "round_half_even m =
     (let k = \<lfloor>m\<rfloor>; d = m - of_int k
      in if d < 1 / 2 then k else if 1 / 2 < d then k + 1
         else if even k then k else k + 1)"

definition quantum :: "rat \<Rightarrow> rat" where
  \<comment> \<open>the distance between neighbouring binary64 values at \<open>a > 0\<close>: 53 significant bits,
      least exponent -1022 (the subnormal values lie below)\<close>
  "quantum a = pow2 (max (ilog2 a) (- 1022) - 52)"

definition nearest :: "rat \<Rightarrow> rat" where
  \<comment> \<open>\<open>a > 0\<close> rounded to a multiple of its quantum, a tie going to the even multiple\<close>
  "nearest a = of_int (round_half_even (a / quantum a)) * quantum a"

definition fl :: "rat \<Rightarrow> jsnum" where
  \<comment> \<open>the binary64 value of an exact result: overflow gives an infinity, underflow a zero
      of the sign of the result\<close>
  "fl r = (if r = 0 then Fin 0 else
     let v = nearest \<bar>r\<bar>
     in if pow2 1024 \<le> v then (if 0 < r then PosInf else NegInf)
        else if v = 0 then (if 0 < r then Fin 0 else NegZero)
        else Fin (if 0 < r then v else - v))"

definition is_double :: "jsnum \<Rightarrow> bool" where
  \<comment> \<open>the values a JavaScript number can hold\<close>
  "is_double x = (case x of Fin r \<Rightarrow> fl r = Fin r | _ \<Rightarrow> True)"

definition is_neg :: "jsnum \<Rightarrow> bool" where
  "is_neg x = (case x of Fin r \<Rightarrow> r < 0 | NegZero \<Rightarrow> True | NegInf \<Rightarrow> True | _ \<Rightarrow> False)"

definition is_zero :: "jsnum \<Rightarrow> bool" where
  "is_zero x = (x = Fin 0 \<or> x = NegZero)"

definition is_inf :: "jsnum \<Rightarrow> bool" where
  "is_inf x = (x = PosInf \<or> x = NegInf)"

definition is_fin :: "jsnum \<Rightarrow> bool" where
  \<comment> \<open>a finite number: neither NaN nor an infinity\<close>
  "is_fin x = (case x of Fin _ \<Rightarrow> True | NegZero \<Rightarrow> True | _ \<Rightarrow> False)"

definition val :: "jsnum \<Rightarrow> rat" where
  "val x = (case x of Fin r \<Rightarrow> r | _ \<Rightarrow> 0)"

definition signed_inf :: "bool \<Rightarrow> jsnum" where
  "signed_inf neg = (if neg then NegInf else PosInf)"

definition signed_zero :: "bool \<Rightarrow> jsnum" where
  "signed_zero neg = (if neg then NegZero else Fin 0)"

definition fadd :: "jsnum \<Rightarrow> jsnum \<Rightarrow> jsnum" where
  \<comment> \<open>\<open>x + y\<close> on numbers\<close>
  "fadd x y =
     (if x = NaN \<or> y = NaN then NaN
      else if is_inf x \<and> is_inf y then (if x = y then x else NaN)
      else if is_inf x then x
      else if is_inf y then y
      else if x = NegZero \<and> y = NegZero then NegZero
      else if val x + val y = 0 then Fin 0
      else fl (val x + val y))"

definition fmul :: "jsnum \<Rightarrow> jsnum \<Rightarrow> jsnum" where
  \<comment> \<open>\<open>x * y\<close>\<close>
  "fmul x y =
     (if x = NaN \<or> y = NaN then NaN
      else if (is_inf x \<and> is_zero y) \<or> (is_zero x \<and> is_inf y) then NaN
      else if is_inf x \<or> is_inf y then signed_inf (is_neg x \<noteq> is_neg y)
      else if is_zero x \<or> is_zero y then signed_zero (is_neg x \<noteq> is_neg y)
      else fl (val x * val y))"

definition fdiv :: "jsnum \<Rightarrow> jsnum \<Rightarrow> jsnum" where
  \<comment> \<open>\<open>x / y\<close>\<close>
  "fdiv x y =
     (if x = NaN \<or> y = NaN then NaN
      else if (is_inf x \<and> is_inf y) \<or> (is_zero x \<and> is_zero y) then NaN
      else if is_inf x \<or> is_zero y then signed_inf (is_neg x \<noteq> is_neg y)
      else if is_inf y \<or> is_zero x then signed_zero (is_neg x \<noteq> is_neg y)
      else fl (val x / val y))"

definition math_round :: "jsnum \<Rightarrow> jsnum" where
  \<comment> \<open>\<open>Math.round\<close>: the nearest integer, a tie going to the integer closer to +\<infinity>;
      a result in \<open>[-0.5, 0)\<close> is \<open>-0\<close>\<close>
  "math_round x =
     (case x of
        Fin r \<Rightarrow> if r < 0 \<and> - (1 / 2) \<le> r then NegZero else Fin (of_int \<lfloor>r + 1 / 2\<rfloor>)
      | _ \<Rightarrow> x)"

definition EPSILON :: jsnum where
  \<comment> \<open>\<open>Number.EPSILON\<close>\<close>
  "EPSILON = Fin (pow2 (- 52))"

definition num_or_zero :: "jsnum \<Rightarrow> jsnum" where
  \<comment> \<open>\<open>Number(x) || 0\<close> at a number \<open>x\<close>: \<open>Number\<close> returns it, and NaN and the zeros are falsy\<close>
  "num_or_zero x = (if x = NaN \<or> is_zero x then Fin 0 else x)"

subsection \<open>Values\<close>

datatype jsval =
    JUndefined
  | JNull
  | JBool bool
  | JNum jsnum
  | JStr jsstring
  | JArr "jsval list"
  | JObj "(jsstring \<times> jsval) list"

datatype error = TypeError | InvalidCharacterError | SyntaxError

definition get_prop :: "jsval \<Rightarrow> jsstring \<Rightarrow> jsval" where
  \<comment> \<open>\<open>v.k\<close> at a \<open>v\<close> that is neither null nor undefined, for the property names the source
      reads (none of them is an inherited property or a property of a primitive or an array)\<close>
  "get_prop v k = (case v of
       JObj kvs \<Rightarrow> (case map_of kvs k of Some x \<Rightarrow> x | None \<Rightarrow> JUndefined)
     | _ \<Rightarrow> JUndefined)"

definition opt_prop :: "jsval \<Rightarrow> jsstring \<Rightarrow> jsval" where
  \<comment> \<open>\<open>v?.k\<close>\<close>
  "opt_prop v k = (if v = JUndefined \<or> v = JNull then JUndefined else get_prop v k)"

definition nullish :: "jsval \<Rightarrow> jsval \<Rightarrow> jsval" where
  \<comment> \<open>\<open>v ?? d\<close>\<close>
  "nullish v d = (if v = JUndefined \<or> v = JNull then d else v)"

definition is_string :: "jsval \<Rightarrow> bool" where
  \<comment> \<open>\<open>typeof v === 'string'\<close>\<close>
  "is_string v = (case v of JStr _ \<Rightarrow> True | _ \<Rightarrow> False)"

definition is_number :: "jsval \<Rightarrow> bool" where
  \<comment> \<open>\<open>typeof v === 'number'\<close>\<close>
  "is_number v = (case v of JNum _ \<Rightarrow> True | _ \<Rightarrow> False)"

section \<open>The invoice model\<close>

text \<open>
  \<open>LineItem\<close> and \<open>Invoice\<close>. The fields that \<open>normalizeInvoice\<close> fills with \<open>??\<close> hold
  whatever value the input had there, so they are values, not strings; the fields it
  fills after a \<open>typeof\<close> test have the type tested.
\<close>

record lineItem =
  id' :: jsstring
  description :: jsstring
  quantity :: jsnum
  unitPrice :: jsnum

record invoice =
  fromName :: jsval
  fromAddress :: jsval
  billToName :: jsval
  billToAddress :: jsval
  invoiceNumber :: jsval
  issueDate :: jsval
  dueDate :: jsval
  currency :: jsval
  taxRatePct :: jsnum
  notes' :: jsval
  items :: "lineItem list"

definition js_of_item :: "lineItem \<Rightarrow> jsval" where
  "js_of_item it = JObj
     [(js ''id'', JStr (id' it)),
      (js ''description'', JStr (description it)),
      (js ''quantity'', JNum (quantity it)),
      (js ''unitPrice'', JNum (unitPrice it))]"

definition js_of_invoice :: "invoice \<Rightarrow> jsval" where
  \<comment> \<open>the invoice as the object it is at run time\<close>
  "js_of_invoice iv = JObj
     [(js ''fromName'', fromName iv),
      (js ''fromAddress'', fromAddress iv),
      (js ''billToName'', billToName iv),
      (js ''billToAddress'', billToAddress iv),
      (js ''invoiceNumber'', invoiceNumber iv),
      (js ''issueDate'', issueDate iv),
      (js ''dueDate'', dueDate iv),
      (js ''currency'', currency iv),
      (js ''taxRatePct'', JNum (taxRatePct iv)),
      (js ''notes'', notes' iv),
      (js ''items'', JArr (map js_of_item (items iv)))]"

definition valid_invoice :: "invoice \<Rightarrow> bool" where
  \<comment> \<open>the \<open>Invoice\<close> type: every string field holds a string\<close>
  "valid_invoice iv =
     (is_string (fromName iv) \<and> is_string (fromAddress iv) \<and> is_string (billToName iv)
      \<and> is_string (billToAddress iv) \<and> is_string (invoiceNumber iv)
      \<and> is_string (issueDate iv) \<and> is_string (dueDate iv) \<and> is_string (currency iv)
      \<and> is_string (notes' iv))"

section \<open>The environment\<close>

text \<open>
  \<open>uid\<close> reads \<open>Math.random\<close> and the clock, \<open>todayISO\<close> and \<open>plusDaysISO\<close> read the clock.
  The world holds what they will return: the strings of the successive \<open>uid\<close> calls, and
  the formatted dates. \<open>uid\<close> consumes one string.
\<close>

record world =
  uid_source :: "nat \<Rightarrow> jsstring"
  uid_count :: nat
  today_iso :: jsstring
  plus_days_iso :: "nat \<Rightarrow> jsstring"

definition uid :: "world \<Rightarrow> jsstring \<times> world" where
  "uid w = (uid_source w (uid_count w), w\<lparr>uid_count := Suc (uid_count w)\<rparr>)"

definition todayISO :: "world \<Rightarrow> jsstring" where
  "todayISO w = today_iso w"

definition plusDaysISO :: "world \<Rightarrow> nat \<Rightarrow> jsstring" where
  "plusDaysISO w days = plus_days_iso w days"

section \<open>normalizeInvoice\<close>

definition normalizeItem :: "world \<Rightarrow> jsval \<Rightarrow> lineItem \<times> world" where
  "normalizeItem w it =
     (let (i, w') = (case opt_prop it (js ''id'') of JStr s \<Rightarrow> (s, w) | _ \<Rightarrow> uid w)
      in (\<lparr>id' = i,
           description = (case opt_prop it (js ''description'') of JStr s \<Rightarrow> s | _ \<Rightarrow> js ''''),
           quantity = (case opt_prop it (js ''quantity'') of JNum n \<Rightarrow> n | _ \<Rightarrow> Fin 1),
           unitPrice = (case opt_prop it (js ''unitPrice'') of JNum n \<Rightarrow> n | _ \<Rightarrow> Fin 0)\<rparr>,
          w'))"

fun normalizeItems :: "world \<Rightarrow> jsval list \<Rightarrow> lineItem list \<times> world" where
  \<comment> \<open>\<open>input.items.map(...)\<close>, left to right\<close>
  "normalizeItems w [] = ([], w)"
| "normalizeItems w (it # rest) =
     (let (x, w') = normalizeItem w it; (xs, w'') = normalizeItems w' rest
      in (x # xs, w''))"

definition defaultItem :: "world \<Rightarrow> lineItem \<times> world" where
  "defaultItem w =
     (let (i, w') = uid w
      in (\<lparr>id' = i, description = js ''Service'', quantity = Fin 1, unitPrice = Fin 0\<rparr>, w'))"

definition normalizeInvoice :: "world \<Rightarrow> jsval \<Rightarrow> error + invoice \<times> world" where
  "normalizeInvoice w input =
     (if input = JUndefined \<or> input = JNull then Inl TypeError
      else
        let (its, w') =
              (case get_prop input (js ''items'') of
                 JArr xs \<Rightarrow> normalizeItems w xs
               | _ \<Rightarrow> (let (d, w') = defaultItem w in ([d], w')))
        in Inr (\<lparr>fromName = nullish (get_prop input (js ''fromName'')) (JStr (js '''')),
                 fromAddress = nullish (get_prop input (js ''fromAddress'')) (JStr (js '''')),
                 billToName = nullish (get_prop input (js ''billToName'')) (JStr (js '''')),
                 billToAddress = nullish (get_prop input (js ''billToAddress'')) (JStr (js '''')),
                 invoiceNumber = nullish (get_prop input (js ''invoiceNumber'')) (JStr (js '''')),
                 issueDate = nullish (get_prop input (js ''issueDate'')) (JStr (todayISO w)),
                 dueDate = nullish (get_prop input (js ''dueDate'')) (JStr (plusDaysISO w 14)),
                 currency = nullish (get_prop input (js ''currency'')) (JStr (js ''USD'')),
                 taxRatePct = (case get_prop input (js ''taxRatePct'') of JNum n \<Rightarrow> n | _ \<Rightarrow> Fin 0),
                 notes' = nullish (get_prop input (js ''notes'')) (JStr (js '''')),
                 items = its\<rparr>, w'))"

section \<open>Editing and totals\<close>

definition round2 :: "jsnum \<Rightarrow> jsnum" where
  "round2 n = fdiv (math_round (fmul (fadd n EPSILON) (Fin 100))) (Fin 100)"

record totals =
  subtotal :: jsnum
  tax :: jsnum
  total :: jsnum

definition totals :: "invoice \<Rightarrow> totals" where
  "totals iv =
     (let subtotal = round2 (foldl (\<lambda>acc it.
            fadd acc (fmul (num_or_zero (quantity it)) (num_or_zero (unitPrice it))))
            (Fin 0) (items iv));
          tax = round2 (fdiv (fmul subtotal (num_or_zero (taxRatePct iv))) (Fin 100));
          total = round2 (fadd subtotal tax)
      in \<lparr>subtotal = subtotal, tax = tax, total = total\<rparr>)"

text \<open>
  A \<open>Partial<LineItem>\<close>: each field is present or not. \<open>{ ...it, ...patch }\<close> takes the
  fields present in the patch and the others from the item.
\<close>

record patch =
  p_id :: "jsstring option"
  p_description :: "jsstring option"
  p_quantity :: "jsnum option"
  p_unitPrice :: "jsnum option"

definition spread_patch :: "lineItem \<Rightarrow> patch \<Rightarrow> lineItem" where
  "spread_patch it p =
     \<lparr>id' = (case p_id p of Some v \<Rightarrow> v | None \<Rightarrow> id' it),
      description = (case p_description p of Some v \<Rightarrow> v | None \<Rightarrow> description it),
      quantity = (case p_quantity p of Some v \<Rightarrow> v | None \<Rightarrow> quantity it),
      unitPrice = (case p_unitPrice p of Some v \<Rightarrow> v | None \<Rightarrow> unitPrice it)\<rparr>"

definition updateItem :: "jsstring \<Rightarrow> patch \<Rightarrow> invoice \<Rightarrow> invoice" where
  \<comment> \<open>the state update of \<open>updateItem(id, patch)\<close>, from the previous invoice\<close>
  "updateItem i p prev =
     prev\<lparr>items := map (\<lambda>it. if id' it = i then spread_patch it p else it) (items prev)\<rparr>"

definition removeItem :: "jsstring \<Rightarrow> invoice \<Rightarrow> invoice" where
  "removeItem i prev =
     prev\<lparr>items := (if length (items prev) \<le> 1 then items prev
                     else filter (\<lambda>it. id' it \<noteq> i) (items prev))\<rparr>"

section \<open>The platform: base64, UTF-8 and JSON\<close>

subsection \<open>btoa and atob\<close>

type_synonym byte = "8 word"

definition b64_char :: "nat \<Rightarrow> 16 word" where
  \<comment> \<open>the character of a 6-bit value: \<open>A-Z\<close>, \<open>a-z\<close>, \<open>0-9\<close>, \<open>+\<close>, \<open>/\<close>\<close>
  "b64_char n = of_nat (if n < 26 then 65 + n else if n < 52 then 71 + n
                        else if n < 62 then n - 4 else if n = 62 then 43 else 47)"

definition b64_index :: "16 word \<Rightarrow> nat option" where
  "b64_index c = (let u = unat c in
     if 65 \<le> u \<and> u \<le> 90 then Some (u - 65)
     else if 97 \<le> u \<and> u \<le> 122 then Some (u - 71)
     else if 48 \<le> u \<and> u \<le> 57 then Some (u + 4)
     else if u = 43 then Some 62
     else if u = 47 then Some 63
     else None)"

fun b64_encode :: "nat list \<Rightarrow> jsstring" where
  "b64_encode [] = []"
| "b64_encode [a] = [b64_char (a div 4), b64_char (a mod 4 * 16), 61, 61]"
| "b64_encode [a, b] =
     [b64_char (a div 4), b64_char (a mod 4 * 16 + b div 16), b64_char (b mod 16 * 4), 61]"
| "b64_encode (a # b # c # rest) =
     b64_char (a div 4) # b64_char (a mod 4 * 16 + b div 16)
       # b64_char (b mod 16 * 4 + c div 64) # b64_char (c mod 64) # b64_encode rest"

definition btoa :: "jsstring \<Rightarrow> error + jsstring" where
  \<comment> \<open>\<open>btoa\<close>: a code unit above 255 raises, the others are the bytes encoded\<close>
  "btoa s = (if list_all (\<lambda>c. unat c \<le> 255) s then Inr (b64_encode (map unat s))
             else Inl InvalidCharacterError)"

definition is_ascii_ws :: "16 word \<Rightarrow> bool" where
  "is_ascii_ws c = (c = 9 \<or> c = 10 \<or> c = 12 \<or> c = 13 \<or> c = 32)"

definition strip_padding :: "jsstring \<Rightarrow> jsstring" where
  \<comment> \<open>a length divisible by 4: one or two \<open>=\<close> at the end are removed\<close>
  "strip_padding d =
     (if length d mod 4 = 0 then
        (if 2 \<le> length d \<and> last d = 61 \<and> last (butlast d) = 61 then butlast (butlast d)
         else if d \<noteq> [] \<and> last d = 61 then butlast d
         else d)
      else d)"

fun b64_decode :: "nat list \<Rightarrow> nat list" where
  "b64_decode (w # x # y # z # rest) =
     (w * 4 + x div 16) # (x mod 16 * 16 + y div 4) # (y mod 4 * 64 + z) # b64_decode rest"
| "b64_decode [w, x, y] = [w * 4 + x div 16, x mod 16 * 16 + y div 4]"
| "b64_decode [w, x] = [w * 4 + x div 16]"
| "b64_decode [w] = []"
| "b64_decode [] = []"

definition atob :: "jsstring \<Rightarrow> error + jsstring" where
  \<comment> \<open>\<open>atob\<close>, the forgiving base64 decoding: ASCII whitespace is dropped, padding is
      optional, a length of 1 modulo 4 or a character outside the alphabet raises\<close>
  "atob s =
     (let d = strip_padding (filter (\<lambda>c. \<not> is_ascii_ws c) s)
      in if length d mod 4 = 1 then Inl InvalidCharacterError
         else (case those (map b64_index d) of
                 None \<Rightarrow> Inl InvalidCharacterError
               | Some ns \<Rightarrow> Inr (map of_nat (b64_decode ns))))"

subsection \<open>TextEncoder and TextDecoder\<close>

definition is_high :: "nat \<Rightarrow> bool" where
  "is_high u = (55296 \<le> u \<and> u \<le> 56319)"

definition is_low :: "nat \<Rightarrow> bool" where
  "is_low u = (56320 \<le> u \<and> u \<le> 57343)"

fun scalars :: "nat list \<Rightarrow> nat list" where
  \<comment> \<open>the code points of a string; a surrogate without its partner counts as U+FFFD\<close>
  "scalars [] = []"
| "scalars [h] = (if is_high h \<or> is_low h then [65533] else [h])"
| "scalars (h # l # r) =
     (if is_high h \<and> is_low l then (65536 + (h - 55296) * 1024 + (l - 56320)) # scalars r
      else if is_high h \<or> is_low h then 65533 # scalars (l # r)
      else h # scalars (l # r))"

definition utf8_of :: "nat \<Rightarrow> nat list" where
  "utf8_of cp =
     (if cp < 128 then [cp]
      else if cp < 2048 then [192 + cp div 64, 128 + cp mod 64]
      else if cp < 65536 then [224 + cp div 4096, 128 + cp div 64 mod 64, 128 + cp mod 64]
      else [240 + cp div 262144, 128 + cp div 4096 mod 64, 128 + cp div 64 mod 64, 128 + cp mod 64])"

definition text_encode :: "jsstring \<Rightarrow> byte list" where
  \<comment> \<open>\<open>new TextEncoder().encode(s)\<close>\<close>
  "text_encode s = map of_nat (concat (map utf8_of (scalars (map unat s))))"

function utf8_decode :: "nat \<Rightarrow> nat \<Rightarrow> nat \<Rightarrow> nat \<Rightarrow> nat list \<Rightarrow> nat list" where
  \<comment> \<open>the UTF-8 decoder of the Encoding standard, errors replaced by U+FFFD: the code point
      in progress, the bytes it still needs, the bounds of the next byte, the input\<close>
  "utf8_decode cp needed lo hi [] = (if needed = 0 then [] else [65533])"
| "utf8_decode cp needed lo hi (b # bs) =
     (if needed = 0 then
        (if b \<le> 127 then b # utf8_decode 0 0 128 191 bs
         else if 194 \<le> b \<and> b \<le> 223 then utf8_decode (b mod 32) 1 128 191 bs
         else if 224 \<le> b \<and> b \<le> 239 then
           utf8_decode (b mod 16) 2 (if b = 224 then 160 else 128) (if b = 237 then 159 else 191) bs
         else if 240 \<le> b \<and> b \<le> 244 then
           utf8_decode (b mod 8) 3 (if b = 240 then 144 else 128) (if b = 244 then 143 else 191) bs
         else 65533 # utf8_decode 0 0 128 191 bs)
      else if \<not> (lo \<le> b \<and> b \<le> hi) then 65533 # utf8_decode 0 0 128 191 (b # bs)
      else if needed = 1 then (cp * 64 + b mod 64) # utf8_decode 0 0 128 191 bs
      else utf8_decode (cp * 64 + b mod 64) (needed - 1) 128 191 bs)"
  by pat_completeness auto
termination
  by (relation "measure (\<lambda>(cp, needed, lo, hi, bs). 2 * length bs + (if needed = 0 then 0 else 1))")
    auto

definition strip_bom :: "nat list \<Rightarrow> nat list" where
  "strip_bom cps = (case cps of c # r \<Rightarrow> if c = 65279 then r else cps | [] \<Rightarrow> [])"

definition utf16_of :: "nat \<Rightarrow> nat list" where
  "utf16_of cp = (if cp < 65536 then [cp]
                  else [55296 + (cp - 65536) div 1024, 56320 + (cp - 65536) mod 1024])"

definition text_decode :: "byte list \<Rightarrow> jsstring" where
  \<comment> \<open>\<open>new TextDecoder().decode(bytes)\<close>: UTF-8, not fatal, a leading byte order mark dropped\<close>
  "text_decode bs =
     map of_nat (concat (map utf16_of (strip_bom (utf8_decode 0 0 128 191 (map unat bs)))))"

subsection \<open>JSON.parse\<close>

datatype token =
    TLBrace | TRBrace | TLBracket | TRBracket | TColon | TComma
  | TStr jsstring | TNum jsnum | TTrue | TFalse | TNull

definition is_json_ws :: "16 word \<Rightarrow> bool" where
  "is_json_ws c = (c = 9 \<or> c = 10 \<or> c = 13 \<or> c = 32)"

definition is_digit :: "16 word \<Rightarrow> bool" where
  "is_digit c = (48 \<le> unat c \<and> unat c \<le> 57)"

definition digit_val :: "16 word \<Rightarrow> nat" where
  "digit_val c = unat c - 48"

definition dec_value :: "jsstring \<Rightarrow> nat" where
  \<comment> \<open>the number a string of decimal digits denotes\<close>
  "dec_value ds = foldl (\<lambda>a d. 10 * a + digit_val d) 0 ds"

definition hex_val :: "16 word \<Rightarrow> nat option" where
  "hex_val c = (let u = unat c in
     if 48 \<le> u \<and> u \<le> 57 then Some (u - 48)
     else if 97 \<le> u \<and> u \<le> 102 then Some (u - 87)
     else if 65 \<le> u \<and> u \<le> 70 then Some (u - 55)
     else None)"

definition unescape :: "16 word \<Rightarrow> 16 word option" where
  \<comment> \<open>the character after a backslash, \<open>u\<close> apart\<close>
  "unescape e =
     (if e = 34 then Some 34 else if e = 92 then Some 92 else if e = 47 then Some 47
      else if e = 98 then Some 8 else if e = 102 then Some 12 else if e = 110 then Some 10
      else if e = 114 then Some 13 else if e = 116 then Some 9 else None)"

fun lex_string :: "jsstring \<Rightarrow> (jsstring \<times> jsstring) option" where
  \<comment> \<open>the characters of a string literal after its opening quote, and what follows the
      closing quote\<close>
  "lex_string [] = None"
| "lex_string (c # cs) =
     (if c = 34 then Some ([], cs)
      else if c = 92 then
        (case cs of
           [] \<Rightarrow> None
         | e # r \<Rightarrow>
             if e = 117 then
               (case r of
                  h1 # h2 # h3 # h4 # r' \<Rightarrow>
                    (case (hex_val h1, hex_val h2, hex_val h3, hex_val h4) of
                       (Some a, Some b, Some c, Some d) \<Rightarrow>
                         map_option (\<lambda>(s, rest). (of_nat (((a * 16 + b) * 16 + c) * 16 + d) # s, rest))
                           (lex_string r')
                     | _ \<Rightarrow> None)
                | _ \<Rightarrow> None)
             else
               (case unescape e of
                  Some u \<Rightarrow> map_option (\<lambda>(s, rest). (u # s, rest)) (lex_string r)
                | None \<Rightarrow> None))
      else if unat c < 32 then None
      else map_option (\<lambda>(s, rest). (c # s, rest)) (lex_string cs))"

definition lex_frac :: "jsstring \<Rightarrow> (jsstring \<times> jsstring) option" where
  \<comment> \<open>an optional fraction: its digits, and the rest\<close>
  "lex_frac cs =
     (case cs of
        c # r \<Rightarrow>
          if c = 46 then
            (if takeWhile is_digit r = [] then None
             else Some (takeWhile is_digit r, dropWhile is_digit r))
          else Some ([], cs)
      | [] \<Rightarrow> Some ([], []))"

definition lex_exp :: "jsstring \<Rightarrow> (int \<times> jsstring) option" where
  \<comment> \<open>an optional exponent: its value, and the rest\<close>
  "lex_exp cs =
     (case cs of
        c # r \<Rightarrow>
          if c = 101 \<or> c = 69 then
            (let eneg = (case r of s # _ \<Rightarrow> s = 45 | [] \<Rightarrow> False);
                 r1 = (case r of s # r' \<Rightarrow> if s = 43 \<or> s = 45 then r' else r | [] \<Rightarrow> [])
             in if takeWhile is_digit r1 = [] then None
                else Some ((if eneg then - int (dec_value (takeWhile is_digit r1))
                            else int (dec_value (takeWhile is_digit r1))),
                           dropWhile is_digit r1))
          else Some (0, cs)
      | [] \<Rightarrow> Some (0, []))"

definition number_value :: "bool \<Rightarrow> nat \<Rightarrow> int \<Rightarrow> jsnum" where
  \<comment> \<open>the number nearest to \<open>\<plusminus> m * 10^e\<close>\<close>
  "number_value neg m e =
     (if m = 0 then (if neg then NegZero else Fin 0)
      else fl ((if neg then - 1 else 1) * of_nat m * 10 powi e))"

definition lex_number :: "jsstring \<Rightarrow> (jsnum \<times> jsstring) option" where
  \<comment> \<open>a number literal: \<open>-? (0 | [1-9][0-9]*) (. [0-9]+)? ([eE] [+-]? [0-9]+)?\<close>\<close>
  "lex_number cs =
     (let neg = (case cs of c # _ \<Rightarrow> c = 45 | [] \<Rightarrow> False);
          cs1 = (if neg then tl cs else cs);
          ip = takeWhile is_digit cs1
      in if ip = [] \<or> (1 < length ip \<and> hd ip = 48) then None
         else (case lex_frac (dropWhile is_digit cs1) of
                 None \<Rightarrow> None
               | Some (fp, cs3) \<Rightarrow>
                   (case lex_exp cs3 of
                      None \<Rightarrow> None
                    | Some (e, cs4) \<Rightarrow>
                        Some (number_value neg (dec_value (ip @ fp)) (e - int (length fp)), cs4))))"

function lex :: "jsstring \<Rightarrow> token list option" where
  "lex [] = Some []"
| "lex (c # cs) =
     (if is_json_ws c then lex cs
      else if c = 123 then map_option (Cons TLBrace) (lex cs)
      else if c = 125 then map_option (Cons TRBrace) (lex cs)
      else if c = 91 then map_option (Cons TLBracket) (lex cs)
      else if c = 93 then map_option (Cons TRBracket) (lex cs)
      else if c = 58 then map_option (Cons TColon) (lex cs)
      else if c = 44 then map_option (Cons TComma) (lex cs)
      else if c = 34 then
        (case lex_string cs of
           None \<Rightarrow> None
         | Some (s, rest) \<Rightarrow> map_option (Cons (TStr s)) (lex rest))
      else if c = 45 \<or> is_digit c then
        (case lex_number (c # cs) of
           None \<Rightarrow> None
         | Some (n, rest) \<Rightarrow> map_option (Cons (TNum n)) (lex rest))
      else if take 4 (c # cs) = js ''true'' then map_option (Cons TTrue) (lex (drop 3 cs))
      else if take 5 (c # cs) = js ''false'' then map_option (Cons TFalse) (lex (drop 4 cs))
      else if take 4 (c # cs) = js ''null'' then map_option (Cons TNull) (lex (drop 3 cs))
      else None)"
  by pat_completeness auto
termination
proof (relation "measure length")
  have step: "(c = 34 \<and> rest = cs) \<or> (\<exists>cs' s'. length cs' \<le> length cs \<and> lex_string cs' = Some (s', rest))"
    if "lex_string (c # cs) = Some (s, rest)" for c cs s rest
  proof (cases "c = 34")
    case True
    with that show ?thesis by simp
  next
    case n34: False
    show ?thesis
    proof (cases "c = 92")
      case False
      with n34 that obtain s' where "lex_string cs = Some (s', rest)"
        by (auto split: if_splits)
      then show ?thesis by auto
    next
      case True
      with n34 that obtain e r where cs: "cs = e # r"
        by (cases cs) auto
      show ?thesis
      proof (cases "e = 117")
        case u: True
        with n34 True cs that obtain h1 h2 h3 h4 r' where r: "r = h1 # h2 # h3 # h4 # r'"
          by (auto split: list.splits)
        with n34 True cs u that obtain s' where "lex_string r' = Some (s', rest)"
          by (auto split: option.splits)
        with cs r show ?thesis by auto
      next
        case nu: False
        with n34 True cs that obtain s' where "lex_string r = Some (s', rest)"
          by (auto split: option.splits)
        with cs show ?thesis by auto
      qed
    qed
  qed
  have str: "length rest \<le> length cs" if "lex_string cs = Some (s, rest)" for cs s rest
    using that
  proof (induction "length cs" arbitrary: cs s rest rule: less_induct)
    case less
    show ?case
    proof (cases cs)
      case Nil
      with less.prems show ?thesis by simp
    next
      case (Cons c cs')
      from step [OF less.prems [unfolded Cons]] show ?thesis
      proof
        assume "c = 34 \<and> rest = cs'"
        with Cons show ?thesis by simp
      next
        assume "\<exists>cs'' s'. length cs'' \<le> length cs' \<and> lex_string cs'' = Some (s', rest)"
        then obtain cs'' s' where l: "length cs'' \<le> length cs'" and r: "lex_string cs'' = Some (s', rest)"
          by blast
        from l Cons have "length cs'' < length cs" by simp
        from less.hyps [OF this r] l Cons show ?thesis by simp
      qed
    qed
  qed
  have dw: "length (dropWhile P xs) \<le> length xs" for P and xs :: jsstring
    by (simp add: length_dropWhile_le)
  have frac: "length rest \<le> length cs" if "lex_frac cs = Some (fp, rest)" for cs fp rest
    using that dw [of is_digit "tl cs"]
    by (auto simp: lex_frac_def split: list.splits if_splits)
  have exp: "length rest \<le> length cs" if "lex_exp cs = Some (e, rest)" for cs e rest
  proof (cases cs)
    case Nil
    with that show ?thesis by (simp add: lex_exp_def)
  next
    case (Cons c r)
    show ?thesis
    proof (cases "c = 101 \<or> c = 69")
      case False
      with that Cons show ?thesis by (auto simp: lex_exp_def)
    next
      case True
      define r1 where "r1 = (case r of s # r' \<Rightarrow> if s = 43 \<or> s = 45 then r' else r | [] \<Rightarrow> [])"
      have "length r1 \<le> length r" by (auto simp: r1_def split: list.splits)
      moreover from that Cons True have "rest = dropWhile is_digit r1"
        by (auto simp: lex_exp_def Let_def r1_def split: if_splits)
      ultimately show ?thesis using dw [of is_digit r1] Cons by simp
    qed
  qed
  have num: "length rest < length cs" if "lex_number cs = Some (n, rest)" for cs n rest
  proof -
    define cs1 where "cs1 = (if (case cs of c # _ \<Rightarrow> c = 45 | [] \<Rightarrow> False) then tl cs else cs)"
    have l1: "length cs1 \<le> length cs" by (simp add: cs1_def)
    from that have ne: "takeWhile is_digit cs1 \<noteq> []"
      by (auto simp: lex_number_def Let_def cs1_def split: if_splits)
    from that obtain fp cs3 e where f: "lex_frac (dropWhile is_digit cs1) = Some (fp, cs3)"
      and x: "lex_exp cs3 = Some (e, rest)"
      by (auto simp: lex_number_def Let_def cs1_def split: if_splits option.splits)
    have "length (takeWhile is_digit cs1) + length (dropWhile is_digit cs1) = length cs1"
      by (metis length_append takeWhile_dropWhile_id)
    with ne have "length (dropWhile is_digit cs1) < length cs1"
      by (cases "takeWhile is_digit cs1") simp_all
    with frac [OF f] exp [OF x] l1 show ?thesis by simp
  qed
  show "wf (measure length)" by simp
  show "(cs, c # cs) \<in> measure length" for c cs by simp
  show "(rest, c # cs) \<in> measure length"
    if "lex_string cs = Some x2" "(s, rest) = x2" for c cs x2 s rest
    using str [of cs s rest] that by simp
  show "(rest, c # cs) \<in> measure length"
    if "lex_number (c # cs) = Some x2" "(n, rest) = x2" for c cs x2 n rest
    using num [of "c # cs" n rest] that by simp
qed simp_all

datatype frame =
    FArr "jsval list"
  | FObj "(jsstring \<times> jsval) list" "jsstring option"

datatype expect =
    EValue | EValueOrClose | EKey | EKeyOrClose | EColon | ECommaOrClose | EEnd

type_synonym pstate = "expect \<times> frame list \<times> jsval option"

fun obj_set :: "jsstring \<Rightarrow> jsval \<Rightarrow> (jsstring \<times> jsval) list \<Rightarrow> (jsstring \<times> jsval) list" where
  \<comment> \<open>a property is added at the end; a key that is there already keeps its place and
      takes the new value\<close>
  "obj_set k v [] = [(k, v)]"
| "obj_set k v ((k', v') # r) = (if k = k' then (k, v) # r else (k', v') # obj_set k v r)"

fun push_value :: "jsval \<Rightarrow> frame list \<Rightarrow> pstate option" where
  \<comment> \<open>a complete value goes to the array or the object being read, or is the result\<close>
  "push_value v [] = Some (EEnd, [], Some v)"
| "push_value v (FArr vs # st) = Some (ECommaOrClose, FArr (vs @ [v]) # st, None)"
| "push_value v (FObj fs (Some k) # st) = Some (ECommaOrClose, FObj (obj_set k v fs) None # st, None)"
| "push_value v (FObj fs None # st) = None"

definition step_value :: "token \<Rightarrow> frame list \<Rightarrow> pstate option" where
  "step_value t st =
     (case t of
        TStr s \<Rightarrow> push_value (JStr s) st
      | TNum n \<Rightarrow> push_value (JNum n) st
      | TTrue \<Rightarrow> push_value (JBool True) st
      | TFalse \<Rightarrow> push_value (JBool False) st
      | TNull \<Rightarrow> push_value JNull st
      | TLBracket \<Rightarrow> Some (EValueOrClose, FArr [] # st, None)
      | TLBrace \<Rightarrow> Some (EKeyOrClose, FObj [] None # st, None)
      | _ \<Rightarrow> None)"

definition step_key :: "token \<Rightarrow> frame list \<Rightarrow> pstate option" where
  "step_key t st =
     (case (t, st) of
        (TStr k, FObj fs None # st') \<Rightarrow> Some (EColon, FObj fs (Some k) # st', None)
      | _ \<Rightarrow> None)"

definition step_close :: "token \<Rightarrow> frame list \<Rightarrow> pstate option" where
  \<comment> \<open>the bracket that closes the array or the object being read\<close>
  "step_close t st =
     (case (t, st) of
        (TRBracket, FArr vs # st') \<Rightarrow> push_value (JArr vs) st'
      | (TRBrace, FObj fs None # st') \<Rightarrow> push_value (JObj fs) st'
      | _ \<Rightarrow> None)"

definition step_token :: "pstate \<Rightarrow> token \<Rightarrow> pstate option" where
  "step_token s t =
     (case s of (e, st, res) \<Rightarrow>
        (case e of
           EValue \<Rightarrow> step_value t st
         | EValueOrClose \<Rightarrow> if t = TRBracket then step_close t st else step_value t st
         | EKey \<Rightarrow> step_key t st
         | EKeyOrClose \<Rightarrow> if t = TRBrace then step_close t st else step_key t st
         | EColon \<Rightarrow> if t = TColon then Some (EValue, st, None) else None
         | ECommaOrClose \<Rightarrow>
             if t = TComma then
               (case st of
                  FArr vs # st' \<Rightarrow> Some (EValue, st, None)
                | FObj fs None # st' \<Rightarrow> Some (EKey, st, None)
                | _ \<Rightarrow> None)
             else step_close t st
         | EEnd \<Rightarrow> None))"

fun run_tokens :: "pstate \<Rightarrow> token list \<Rightarrow> pstate option" where
  "run_tokens s [] = Some s"
| "run_tokens s (t # ts) = (case step_token s t of None \<Rightarrow> None | Some s' \<Rightarrow> run_tokens s' ts)"

definition parse_tokens :: "token list \<Rightarrow> jsval option" where
  "parse_tokens ts =
     (case run_tokens (EValue, [], None) ts of
        Some (EEnd, [], Some v) \<Rightarrow> Some v
      | _ \<Rightarrow> None)"

definition JSON_parse :: "jsstring \<Rightarrow> error + jsval" where
  \<comment> \<open>\<open>JSON.parse(text)\<close>: the value, or a SyntaxError\<close>
  "JSON_parse text =
     (case lex text of
        None \<Rightarrow> Inl SyntaxError
      | Some ts \<Rightarrow> (case parse_tokens ts of None \<Rightarrow> Inl SyntaxError | Some v \<Rightarrow> Inr v))"

subsection \<open>JSON.stringify\<close>

definition hex_digit :: "nat \<Rightarrow> 16 word" where
  "hex_digit n = of_nat (if n < 10 then 48 + n else 87 + n)"

definition unicode_escape :: "nat \<Rightarrow> jsstring" where
  \<comment> \<open>\<open>\uXXXX\<close>, the digits in lower case\<close>
  "unicode_escape u =
     [92, 117, hex_digit (u div 4096), hex_digit (u div 256 mod 16), hex_digit (u div 16 mod 16),
      hex_digit (u mod 16)]"

definition quote_unit :: "16 word \<Rightarrow> jsstring" where
  \<comment> \<open>a code unit that is not half of a surrogate pair, as it stands in a string literal\<close>
  "quote_unit c =
     (if c = 8 then [92, 98] else if c = 9 then [92, 116] else if c = 10 then [92, 110]
      else if c = 12 then [92, 102] else if c = 13 then [92, 114]
      else if c = 34 then [92, 34] else if c = 92 then [92, 92]
      else if unat c < 32 \<or> is_high (unat c) \<or> is_low (unat c) then unicode_escape (unat c)
      else [c])"

fun quote_units :: "jsstring \<Rightarrow> jsstring" where
  "quote_units [] = []"
| "quote_units [h] = quote_unit h"
| "quote_units (h # l # r) =
     (if is_high (unat h) \<and> is_low (unat l) then h # l # quote_units r
      else quote_unit h @ quote_units (l # r))"

definition quote :: "jsstring \<Rightarrow> jsstring" where
  \<comment> \<open>\<open>QuoteJSONString\<close>\<close>
  "quote s = 34 # quote_units s @ [34]"

definition digit_char :: "int \<Rightarrow> 16 word" where
  "digit_char d = of_nat (nat (48 + d))"

function digits_of :: "int \<Rightarrow> jsstring" where
  \<comment> \<open>the decimal digits of a natural number\<close>
  "digits_of n = (if n < 10 then [digit_char n] else digits_of (n div 10) @ [digit_char (n mod 10)])"
  by pat_completeness auto
termination
  by (relation "measure nat") auto

declare digits_of.simps [simp del]

definition ilog10 :: "rat \<Rightarrow> int" where
  \<comment> \<open>for a binary64 \<open>x > 0\<close>: the \<open>n\<close> with \<open>10^n \<le> x < 10^(n+1)\<close>\<close>
  "ilog10 x = (case find (\<lambda>n. 10 powi n \<le> x) (rev [- 400 .. 400]) of Some n \<Rightarrow> n | None \<Rightarrow> - 400)"

definition candidate :: "rat \<Rightarrow> nat \<Rightarrow> (int \<times> int) option" where
  \<comment> \<open>the integer \<open>s\<close> of \<open>k\<close> digits and the \<open>e\<close> with \<open>s * 10^e\<close> of binary64 value \<open>x\<close>, when
      there is one: of the two neighbours of \<open>x\<close> the closer, the even one in a tie\<close>
  "candidate x k =
     (let e = ilog10 x + 1 - int k;
          p = 10 powi e;
          sf = \<lfloor>x / p\<rfloor>;
          okl = (0 < sf \<and> fl (of_int sf * p) = Fin x);
          okh = (fl (of_int (sf + 1) * p) = Fin x);
          low = (okl \<and> (\<not> okh \<or> x - of_int sf * p < of_int (sf + 1) * p - x
                        \<or> (x - of_int sf * p = of_int (sf + 1) * p - x \<and> even sf)))
      in if low then Some (sf, e)
         else if okh then (if sf + 1 = 10 ^ k then Some (10 ^ (k - 1), e + 1) else Some (sf + 1, e))
         else None)"

fun first_candidate :: "rat \<Rightarrow> nat list \<Rightarrow> (int \<times> int) option" where
  "first_candidate x [] = None"
| "first_candidate x (k # ks) =
     (case candidate x k of Some r \<Rightarrow> Some r | None \<Rightarrow> first_candidate x ks)"

definition shortest :: "rat \<Rightarrow> (int \<times> int) option" where
  \<comment> \<open>for \<open>x > 0\<close>: the \<open>s\<close> and \<open>e\<close> with \<open>s * 10^e\<close> of value \<open>x\<close> and as few digits in \<open>s\<close> as
      possible (\<open>n - k\<close> is \<open>e\<close> in the terms of \<open>Number::toString\<close>)\<close>
  "shortest x = first_candidate x [1 ..< 1500]"

definition format_digits :: "jsstring \<Rightarrow> int \<Rightarrow> jsstring" where
  \<comment> \<open>the text of \<open>Number::toString\<close> from the digits \<open>ds\<close> of \<open>s\<close> and from \<open>n\<close>\<close>
  "format_digits ds n =
     (let k = int (length ds) in
      if k \<le> n \<and> n \<le> 21 then ds @ replicate (nat (n - k)) 48
      else if 0 < n \<and> n \<le> 21 then take (nat n) ds @ 46 # drop (nat n) ds
      else if - 6 < n \<and> n \<le> 0 then 48 # 46 # replicate (nat (- n)) 48 @ ds
      else
        (let es = (if n - 1 < 0 then 45 else 43) # digits_of \<bar>n - 1\<bar>
         in if k = 1 then ds @ 101 # es else hd ds # 46 # tl ds @ 101 # es))"

definition positive_to_string :: "rat \<Rightarrow> jsstring" where
  \<comment> \<open>\<open>shortest\<close> finds digits for every binary64 value\<close>
  "positive_to_string x =
     (case shortest x of
        Some (s, e) \<Rightarrow> format_digits (digits_of s) (e + int (length (digits_of s)))
      | None \<Rightarrow> [])"

definition num_to_string :: "jsnum \<Rightarrow> jsstring" where
  \<comment> \<open>\<open>Number::toString\<close> in base 10\<close>
  "num_to_string x =
     (case x of
        NaN \<Rightarrow> js ''NaN''
      | PosInf \<Rightarrow> js ''Infinity''
      | NegInf \<Rightarrow> js ''-Infinity''
      | NegZero \<Rightarrow> js ''0''
      | Fin r \<Rightarrow> if r = 0 then js ''0'' else if r < 0 then 45 # positive_to_string (- r)
                 else positive_to_string r)"

fun join_comma :: "jsstring list \<Rightarrow> jsstring" where
  "join_comma [] = []"
| "join_comma [x] = x"
| "join_comma (x # y # r) = x @ 44 # join_comma (y # r)"

definition json_number :: "jsnum \<Rightarrow> jsstring" where
  "json_number n = (if is_fin n then num_to_string n else js ''null'')"

definition json_element :: "jsstring option \<Rightarrow> jsstring" where
  \<comment> \<open>an array element that has no JSON text counts as null\<close>
  "json_element t = (case t of Some x \<Rightarrow> x | None \<Rightarrow> js ''null'')"

definition json_fields :: "(jsstring \<times> jsstring option) list \<Rightarrow> jsstring list" where
  \<comment> \<open>a property whose value has no JSON text is left out\<close>
  "json_fields kts =
     concat (map (\<lambda>(k, t). case t of Some x \<Rightarrow> [quote k @ 58 # x] | None \<Rightarrow> []) kts)"

primrec json_of :: "jsval \<Rightarrow> jsstring option" where
  \<comment> \<open>\<open>JSON.stringify(v)\<close>; \<open>None\<close> is undefined\<close>
  "json_of JUndefined = None"
| "json_of JNull = Some (js ''null'')"
| "json_of (JBool b) = Some (if b then js ''true'' else js ''false'')"
| "json_of (JNum n) = Some (json_number n)"
| "json_of (JStr s) = Some (quote s)"
| "json_of (JArr xs) = Some (91 # join_comma (map json_element (map json_of xs)) @ [93])"
| "json_of (JObj kvs) = Some (123 # join_comma (json_fields (map (map_prod id json_of) kvs)) @ [125])"

definition JSON_stringify :: "jsval \<Rightarrow> jsstring option" where
  "JSON_stringify v = json_of v"

section \<open>The share link\<close>

definition replaceAll :: "16 word \<Rightarrow> jsstring \<Rightarrow> jsstring \<Rightarrow> jsstring" where
  \<comment> \<open>\<open>s.replaceAll(c, r)\<close> for a pattern of one character\<close>
  "replaceAll c r s = concat (map (\<lambda>x. if x = c then r else [x]) s)"

definition slice :: "jsstring \<Rightarrow> nat \<Rightarrow> jsstring" where
  \<comment> \<open>\<open>s.slice(n)\<close>\<close>
  "slice s n = drop n s"

definition base64UrlEncodeUtf8 :: "jsstring \<Rightarrow> error + jsstring" where
  "base64UrlEncodeUtf8 input =
     (let bytes = text_encode input;
          binary = map ucast bytes
      in case btoa binary of
           Inl e \<Rightarrow> Inl e
         | Inr b64 \<Rightarrow> Inr (replaceAll 61 [] (replaceAll 47 [95] (replaceAll 43 [45] b64))))"

definition base64UrlDecodeUtf8 :: "jsstring \<Rightarrow> error + jsstring" where
  "base64UrlDecodeUtf8 input =
     (let padded = replaceAll 95 [47] (replaceAll 45 [43] input)
                     @ slice (js ''==='') ((length input + 3) mod 4)
      in case atob padded of
           Inl e \<Rightarrow> Inl e
         | Inr binary \<Rightarrow> Inr (text_decode (map ucast binary)))"

definition safeJsonParse :: "jsstring \<Rightarrow> jsval" where
  \<comment> \<open>the value, or null when \<open>JSON.parse\<close> raises\<close>
  "safeJsonParse s = (case JSON_parse s of Inl e \<Rightarrow> JNull | Inr v \<Rightarrow> v)"

definition falsy :: "jsval \<Rightarrow> bool" where
  \<comment> \<open>\<open>!v\<close>\<close>
  "falsy v =
     (case v of
        JUndefined \<Rightarrow> True
      | JNull \<Rightarrow> True
      | JBool b \<Rightarrow> \<not> b
      | JNum n \<Rightarrow> n = NaN \<or> is_zero n
      | JStr s \<Rightarrow> s = []
      | _ \<Rightarrow> False)"

definition exampleInvoice :: "world \<Rightarrow> invoice \<times> world" where
  \<comment> \<open>the constant \<open>exampleInvoice\<close>, built when the module is loaded\<close>
  "exampleInvoice w =
     (let (i1, w1) = uid w; (i2, w2) = uid w1
      in (\<lparr>fromName = JStr (js ''Acme Studio LLC''),
           fromAddress = JStr (js ''1-2-3 Shibuya'' @ [10] @ js ''Tokyo, Japan''),
           billToName = JStr (js ''Client Co.''),
           billToAddress = JStr (js ''500 Market St'' @ [10] @ js ''San Francisco, CA''),
           invoiceNumber = JStr (js ''INV-1007''),
           issueDate = JStr (todayISO w),
           dueDate = JStr (plusDaysISO w 14),
           currency = JStr (js ''USD''),
           taxRatePct = Fin 10,
           notes' = JStr (js ''Thank you for your business. Please include the invoice number on your payment reference.''),
           items = [\<lparr>id' = i1, description = js ''Landing page design (Figma)'', quantity = Fin 1,
                      unitPrice = Fin 900\<rparr>,
                    \<lparr>id' = i2, description = js ''Implementation (Next.js)'', quantity = Fin 10,
                      unitPrice = Fin 90\<rparr>]\<rparr>, w2))"

record parsed =
  invoice :: invoice
  status :: jsstring

definition fallback :: "invoice \<Rightarrow> world \<Rightarrow> error + parsed \<times> world" where
  \<comment> \<open>\<open>{ invoice: normalizeInvoice(exampleInvoice), status: '' }\<close>\<close>
  "fallback ex w =
     (case normalizeInvoice w (js_of_invoice ex) of
        Inl e \<Rightarrow> Inl e
      | Inr (iv, w') \<Rightarrow> Inr (\<lparr>invoice = iv, status = js ''''\<rparr>, w'))"

definition parseInvoiceFromUrl ::
    "invoice \<Rightarrow> bool \<Rightarrow> jsstring option \<Rightarrow> world \<Rightarrow> error + parsed \<times> world" where
  \<comment> \<open>\<open>ex\<close> is \<open>exampleInvoice\<close>, \<open>window\<close> says whether there is a \<open>window\<close>, \<open>data\<close> is what
      \<open>params.get('data')\<close> returns (\<open>None\<close> for null). An exception inside \<open>try\<close> goes to
      \<open>catch\<close>; one outside would leave the function, as \<open>Inl\<close>.\<close>
  "parseInvoiceFromUrl ex window data w =
     (if \<not> window then fallback ex w
      else case data of
        None \<Rightarrow> fallback ex w
      | Some d \<Rightarrow>
          if d = [] then fallback ex w
          else (case base64UrlDecodeUtf8 d of
                  Inl e \<Rightarrow> fallback ex w
                | Inr json \<Rightarrow>
                    (let parsed = safeJsonParse json
                     in if falsy parsed then fallback ex w
                        else (case normalizeInvoice w parsed of
                                Inl e \<Rightarrow> fallback ex w
                              | Inr (iv, w') \<Rightarrow>
                                  Inr (\<lparr>invoice = iv,
                                        status = js ''Loaded invoice from share link.''\<rparr>, w')))))"

definition share_token :: "invoice \<Rightarrow> error + jsstring" where
  \<comment> \<open>the \<open>data\<close> parameter \<open>copyShareLink\<close> puts in the link:
      \<open>base64UrlEncodeUtf8(JSON.stringify(invoice))\<close>; \<open>TextEncoder.encode\<close> reads undefined
      as the empty string\<close>
  "share_token iv =
     (case JSON_stringify (js_of_invoice iv) of
        None \<Rightarrow> base64UrlEncodeUtf8 []
      | Some json \<Rightarrow> base64UrlEncodeUtf8 json)"

definition round_trip :: "world \<Rightarrow> invoice \<Rightarrow> error + invoice \<times> world" where
  \<comment> \<open>the share link token of the invoice, decoded, parsed and normalized\<close>
  "round_trip w iv =
     (case share_token iv of
        Inl e \<Rightarrow> Inl e
      | Inr tok \<Rightarrow>
          (case base64UrlDecodeUtf8 tok of
             Inl e \<Rightarrow> Inl e
           | Inr json \<Rightarrow>
               (case JSON_parse json of
                  Inl e \<Rightarrow> Inl e
                | Inr v \<Rightarrow> normalizeInvoice w v)))"

section \<open>What the specification says, in the terms of the model\<close>

definition nan_as_zero :: "jsnum \<Rightarrow> jsnum" where
  \<comment> \<open>a value that is not a number is treated as 0: among the values of a numeric field,
      that is NaN\<close>
  "nan_as_zero x = (if x = NaN then Fin 0 else x)"

definition lineTotal :: "lineItem \<Rightarrow> jsnum" where
  \<comment> \<open>\<open>lineTotal_i = quantity_i * unitPrice_i\<close>, a value that is not a number treated as 0\<close>
  "lineTotal it = fmul (nan_as_zero (quantity it)) (nan_as_zero (unitPrice it))"

definition same_but_zero_sign :: "jsnum \<Rightarrow> jsnum \<Rightarrow> bool" where
  \<comment> \<open>the same number, or two zeros\<close>
  "same_but_zero_sign x y = (x = y \<or> (is_zero x \<and> is_zero y))"

definition sum_from_zero :: "jsnum list \<Rightarrow> jsnum" where
  \<comment> \<open>the sum of a list, taken from 0 and from the left\<close>
  "sum_from_zero xs = foldl fadd (Fin 0) xs"

definition snearest :: "rat \<Rightarrow> rat" where
  \<comment> \<open>the exact value of \<open>fl r\<close> when it does not overflow\<close>
  "snearest r = (if r = 0 then 0 else if 0 < r then nearest r else - nearest (- r))"

definition scaled :: "rat \<Rightarrow> rat" where
  \<comment> \<open>the value of \<open>(n + Number.EPSILON) * 100\<close> in \<open>round2\<close>\<close>
  "scaled x = val (fmul (fadd (Fin x) EPSILON) (Fin 100))"

definition cents :: "rat \<Rightarrow> int" where
  \<comment> \<open>the integer \<open>Math.round\<close> returns in \<open>round2\<close>\<close>
  "cents x = \<lfloor>scaled x + 1 / 2\<rfloor>"

definition decode_fails :: "jsstring \<Rightarrow> bool" where
  \<comment> \<open>a stage of the decoding fails: \<open>atob\<close> raises, \<open>JSON.parse\<close> raises, or the value parsed
      is falsy\<close>
  "decode_fails d =
     (case base64UrlDecodeUtf8 d of
        Inl e \<Rightarrow> True
      | Inr json \<Rightarrow> (case JSON_parse json of Inl e \<Rightarrow> True | Inr v \<Rightarrow> falsy v))"

definition same_header :: "invoice \<Rightarrow> invoice \<Rightarrow> bool" where
  \<comment> \<open>the two invoices agree on every field but \<open>items\<close>\<close>
  "same_header a b =
     (fromName a = fromName b \<and> fromAddress a = fromAddress b \<and> billToName a = billToName b
      \<and> billToAddress a = billToAddress b \<and> invoiceNumber a = invoiceNumber b
      \<and> issueDate a = issueDate b \<and> dueDate a = dueDate b \<and> currency a = currency b
      \<and> taxRatePct a = taxRatePct b \<and> notes' a = notes' b)"

definition has_string_id :: "jsval \<Rightarrow> bool" where
  "has_string_id it = is_string (opt_prop it (js ''id''))"

definition fresh_before :: "jsval list \<Rightarrow> nat \<Rightarrow> nat" where
  \<comment> \<open>how many of the first \<open>k\<close> entries get a generated id\<close>
  "fresh_before xs k = length (filter (\<lambda>x. \<not> has_string_id x) (take k xs))"

definition coerced :: "jsstring \<Rightarrow> jsval \<Rightarrow> lineItem \<Rightarrow> bool" where
  \<comment> \<open>\<open>y\<close> is the entry \<open>x\<close> coerced field by field, \<open>fresh\<close> being the id generated for it\<close>
  "coerced fresh x y =
     ((\<forall>s. opt_prop x (js ''id'') = JStr s \<longrightarrow> id' y = s)
      \<and> (\<not> is_string (opt_prop x (js ''id'')) \<longrightarrow> id' y = fresh)
      \<and> (\<forall>s. opt_prop x (js ''description'') = JStr s \<longrightarrow> description y = s)
      \<and> (\<not> is_string (opt_prop x (js ''description'')) \<longrightarrow> description y = js '''')
      \<and> (\<forall>n. opt_prop x (js ''quantity'') = JNum n \<longrightarrow> quantity y = n)
      \<and> (\<not> is_number (opt_prop x (js ''quantity'')) \<longrightarrow> quantity y = Fin 1)
      \<and> (\<forall>n. opt_prop x (js ''unitPrice'') = JNum n \<longrightarrow> unitPrice y = n)
      \<and> (\<not> is_number (opt_prop x (js ''unitPrice'')) \<longrightarrow> unitPrice y = Fin 0))"

definition delim :: "jsstring \<Rightarrow> bool" where
  \<comment> \<open>what follows a value in a JSON text: nothing, a comma or a closing bracket\<close>
  "delim rest = (case rest of [] \<Rightarrow> True | c # _ \<Rightarrow> c = 44 \<or> c = 125 \<or> c = 93)"

definition canonical :: "jsnum \<Rightarrow> jsnum" where
  \<comment> \<open>the number read back from the text of a finite number: \<open>-0\<close> is written \<open>0\<close>\<close>
  "canonical n = (if n = NegZero then Fin 0 else n)"

definition numtok :: "jsnum \<Rightarrow> token" where
  \<comment> \<open>the token of the text \<open>JSON.stringify\<close> writes for a number\<close>
  "numtok n = (if is_fin n then TNum (canonical n) else TNull)"

definition numval :: "jsnum \<Rightarrow> jsval" where
  \<comment> \<open>the value \<open>JSON.parse\<close> reads from that text\<close>
  "numval n = (if is_fin n then JNum (canonical n) else JNull)"

definition string_of :: "jsval \<Rightarrow> jsstring" where
  "string_of v = (case v of JStr s \<Rightarrow> s | _ \<Rightarrow> [])"

definition item_text :: "lineItem \<Rightarrow> jsstring" where
  \<comment> \<open>the JSON text of a line item\<close>
  "item_text it =
     123 # quote (js ''id'') @ 58 # quote (id' it)
       @ 44 # quote (js ''description'') @ 58 # quote (description it)
       @ 44 # quote (js ''quantity'') @ 58 # json_number (quantity it)
       @ 44 # quote (js ''unitPrice'') @ 58 # json_number (unitPrice it) @ [125]"

definition item_tokens :: "lineItem \<Rightarrow> token list" where
  "item_tokens it =
     [TLBrace, TStr (js ''id''), TColon, TStr (id' it), TComma,
      TStr (js ''description''), TColon, TStr (description it), TComma,
      TStr (js ''quantity''), TColon, numtok (quantity it), TComma,
      TStr (js ''unitPrice''), TColon, numtok (unitPrice it), TRBrace]"

definition read_item :: "lineItem \<Rightarrow> jsval" where
  \<comment> \<open>the value \<open>JSON.parse\<close> reads from the text of a line item\<close>
  "read_item it = JObj
     [(js ''id'', JStr (id' it)),
      (js ''description'', JStr (description it)),
      (js ''quantity'', numval (quantity it)),
      (js ''unitPrice'', numval (unitPrice it))]"

definition items_tokens :: "lineItem list \<Rightarrow> token list" where
  "items_tokens its =
     (case its of
        [] \<Rightarrow> []
      | it # r \<Rightarrow> item_tokens it @ concat (map (\<lambda>i. TComma # item_tokens i) r))"

definition invoice_text :: "invoice \<Rightarrow> jsstring" where
  \<comment> \<open>the JSON text of an invoice whose string fields hold strings\<close>
  "invoice_text iv =
     123 # quote (js ''fromName'') @ 58 # quote (string_of (fromName iv))
       @ 44 # quote (js ''fromAddress'') @ 58 # quote (string_of (fromAddress iv))
       @ 44 # quote (js ''billToName'') @ 58 # quote (string_of (billToName iv))
       @ 44 # quote (js ''billToAddress'') @ 58 # quote (string_of (billToAddress iv))
       @ 44 # quote (js ''invoiceNumber'') @ 58 # quote (string_of (invoiceNumber iv))
       @ 44 # quote (js ''issueDate'') @ 58 # quote (string_of (issueDate iv))
       @ 44 # quote (js ''dueDate'') @ 58 # quote (string_of (dueDate iv))
       @ 44 # quote (js ''currency'') @ 58 # quote (string_of (currency iv))
       @ 44 # quote (js ''taxRatePct'') @ 58 # json_number (taxRatePct iv)
       @ 44 # quote (js ''notes'') @ 58 # quote (string_of (notes' iv))
       @ 44 # quote (js ''items'') @ 58 # 91 # join_comma (map item_text (items iv)) @ [93, 125]"

definition invoice_tokens :: "invoice \<Rightarrow> token list" where
  "invoice_tokens iv =
     [TLBrace, TStr (js ''fromName''), TColon, TStr (string_of (fromName iv)), TComma,
      TStr (js ''fromAddress''), TColon, TStr (string_of (fromAddress iv)), TComma,
      TStr (js ''billToName''), TColon, TStr (string_of (billToName iv)), TComma,
      TStr (js ''billToAddress''), TColon, TStr (string_of (billToAddress iv)), TComma,
      TStr (js ''invoiceNumber''), TColon, TStr (string_of (invoiceNumber iv)), TComma,
      TStr (js ''issueDate''), TColon, TStr (string_of (issueDate iv)), TComma,
      TStr (js ''dueDate''), TColon, TStr (string_of (dueDate iv)), TComma,
      TStr (js ''currency''), TColon, TStr (string_of (currency iv)), TComma,
      TStr (js ''taxRatePct''), TColon, numtok (taxRatePct iv), TComma,
      TStr (js ''notes''), TColon, TStr (string_of (notes' iv)), TComma,
      TStr (js ''items''), TColon, TLBracket]
     @ items_tokens (items iv) @ [TRBracket, TRBrace]"

definition read_invoice :: "invoice \<Rightarrow> jsval" where
  \<comment> \<open>the value \<open>JSON.parse\<close> reads from the text of an invoice\<close>
  "read_invoice iv = JObj
     [(js ''fromName'', JStr (string_of (fromName iv))),
      (js ''fromAddress'', JStr (string_of (fromAddress iv))),
      (js ''billToName'', JStr (string_of (billToName iv))),
      (js ''billToAddress'', JStr (string_of (billToAddress iv))),
      (js ''invoiceNumber'', JStr (string_of (invoiceNumber iv))),
      (js ''issueDate'', JStr (string_of (issueDate iv))),
      (js ''dueDate'', JStr (string_of (dueDate iv))),
      (js ''currency'', JStr (string_of (currency iv))),
      (js ''taxRatePct'', numval (taxRatePct iv)),
      (js ''notes'', JStr (string_of (notes' iv))),
      (js ''items'', JArr (map read_item (items iv)))]"

definition doubles :: "invoice \<Rightarrow> bool" where
  \<comment> \<open>the numbers of the invoice are binary64 values\<close>
  "doubles iv =
     (is_double (taxRatePct iv)
      \<and> list_all (\<lambda>it. is_double (quantity it) \<and> is_double (unitPrice it)) (items iv))"

definition survives :: "jsnum \<Rightarrow> bool" where
  \<comment> \<open>a number that JSON can hold: finite, and not \<open>-0\<close>\<close>
  "survives n = (is_fin n \<and> n \<noteq> NegZero)"

definition numbers_survive :: "invoice \<Rightarrow> bool" where
  "numbers_survive iv =
     (survives (taxRatePct iv)
      \<and> list_all (\<lambda>it. survives (quantity it) \<and> survives (unitPrice it)) (items iv))"

definition reread :: "jsnum \<Rightarrow> jsnum \<Rightarrow> jsnum" where
  \<comment> \<open>the number \<open>normalizeInvoice\<close> finds after the round trip, \<open>d\<close> being its default\<close>
  "reread d n = (if is_fin n then canonical n else d)"

definition after_round_trip :: "invoice \<Rightarrow> invoice" where
  "after_round_trip iv =
     iv\<lparr>taxRatePct := reread (Fin 0) (taxRatePct iv),
        items := map (\<lambda>it. it\<lparr>quantity := reread (Fin 1) (quantity it),
                                unitPrice := reread (Fin 0) (unitPrice it)\<rparr>) (items iv)\<rparr>"

fun sextets :: "nat list \<Rightarrow> nat list" where
  \<comment> \<open>the 6-bit values \<open>b64_encode\<close> writes for a list of bytes\<close>
  "sextets [] = []"
| "sextets [a] = [a div 4, a mod 4 * 16]"
| "sextets [a, b] = [a div 4, a mod 4 * 16 + b div 16, b mod 16 * 4]"
| "sextets (a # b # c # rest) =
     a div 4 # (a mod 4 * 16 + b div 16) # (b mod 16 * 4 + c div 64) # c mod 64 # sextets rest"

fun wf16 :: "nat list \<Rightarrow> bool" where
  \<comment> \<open>well-formed UTF-16: every surrogate is half of a pair\<close>
  "wf16 [] = True"
| "wf16 [h] = (\<not> is_high h \<and> \<not> is_low h)"
| "wf16 (h # l # r) =
     (if is_high h then is_low l \<and> wf16 r else \<not> is_low h \<and> wf16 (l # r))"

definition well_formed :: "jsstring \<Rightarrow> bool" where
  "well_formed t = wf16 (map unat t)"

definition scalar_value :: "nat \<Rightarrow> bool" where
  \<comment> \<open>a code point that is not a surrogate\<close>
  "scalar_value cp = (cp < 1114112 \<and> \<not> is_high cp \<and> \<not> is_low cp)"

section \<open>Concrete inputs\<close>

definition world0 :: world where
  "world0 = \<lparr>uid_source = (\<lambda>n. js ''u'' @ replicate n (of_char CHR ''x'')), uid_count = 0,
             today_iso = js ''2026-01-01'', plus_days_iso = (\<lambda>d. js ''2026-01-15'')\<rparr>"

definition item_a :: lineItem where
  "item_a = \<lparr>id' = js ''a'', description = js ''Design'', quantity = Fin 1, unitPrice = Fin 900\<rparr>"

definition item_b :: lineItem where
  "item_b = \<lparr>id' = js ''b'', description = js ''Build'', quantity = Fin 10, unitPrice = Fin 90\<rparr>"

definition item_nan :: lineItem where
  \<comment> \<open>a line whose quantity is not a number\<close>
  "item_nan = \<lparr>id' = js ''n'', description = js ''Design'', quantity = NaN, unitPrice = Fin 900\<rparr>"

definition invoice_of_items :: "lineItem list \<Rightarrow> invoice" where
  "invoice_of_items its =
     \<lparr>fromName = JStr (js ''Acme''), fromAddress = JStr (js ''Tokyo''),
      billToName = JStr (js ''Client''), billToAddress = JStr (js ''SF''),
      invoiceNumber = JStr (js ''INV-1007''), issueDate = JStr (js ''2026-01-01''),
      dueDate = JStr (js ''2026-01-15''), currency = JStr (js ''USD''),
      taxRatePct = Fin 10, notes' = JStr (js ''Thanks''), items = its\<rparr>"

definition partial_input :: jsval where
  \<comment> \<open>\<open>{ "currency": "EUR", "items": [ { "id": "a", "quantity": 2 }, 5 ] }\<close>\<close>
  "partial_input = JObj
     [(js ''currency'', JStr (js ''EUR'')),
      (js ''items'', JArr [JObj [(js ''id'', JStr (js ''a'')), (js ''quantity'', JNum (Fin 2))],
                            JNum (Fin 5)])]"

definition partial_output :: invoice where
  "partial_output =
     \<lparr>fromName = JStr (js ''''), fromAddress = JStr (js ''''), billToName = JStr (js ''''),
      billToAddress = JStr (js ''''), invoiceNumber = JStr (js ''''),
      issueDate = JStr (js ''2026-01-01''), dueDate = JStr (js ''2026-01-15''),
      currency = JStr (js ''EUR''), taxRatePct = Fin 0, notes' = JStr (js ''''),
      items = [\<lparr>id' = js ''a'', description = js '''', quantity = Fin 2, unitPrice = Fin 0\<rparr>,
               \<lparr>id' = js ''u'', description = js '''', quantity = Fin 1, unitPrice = Fin 0\<rparr>]\<rparr>"

definition example0 :: invoice where
  "example0 = fst (exampleInvoice world0)"

definition replaced_json :: jsstring where
  \<comment> \<open>the text \<open>{"a":"?"}\<close> with U+FFFD for \<open>?\<close>\<close>
  "replaced_json = js ''{\"a\":\"'' @ [65533] @ js ''\"}''"

definition nan_invoice :: invoice where
  \<comment> \<open>a valid invoice whose first quantity is NaN, as \<open>Number('abc')\<close> gives\<close>
  "nan_invoice = invoice_of_items
     [\<lparr>id' = js ''n'', description = js ''Design'', quantity = NaN, unitPrice = Fin 900\<rparr>, item_b]"

section \<open>Properties of normalizeInvoice\<close>

lemma normalizeItem_coerced:
  assumes "normalizeItem w x = (y, w')"
  shows "coerced (uid_source w (uid_count w)) x y
     \<and> w' = (if has_string_id x then w else w\<lparr>uid_count := Suc (uid_count w)\<rparr>)"
proof -
  have i: "id' y = (case opt_prop x (js ''id'') of JStr s \<Rightarrow> s | _ \<Rightarrow> uid_source w (uid_count w))"
    using assms
    by (cases "opt_prop x (js ''id'')") (auto simp: normalizeItem_def uid_def)
  have w: "w' = (if has_string_id x then w else w\<lparr>uid_count := Suc (uid_count w)\<rparr>)"
    using assms
    by (cases "opt_prop x (js ''id'')") (auto simp: normalizeItem_def has_string_id_def is_string_def uid_def)
  have d: "description y = (case opt_prop x (js ''description'') of JStr s \<Rightarrow> s | _ \<Rightarrow> js '''')"
    and q: "quantity y = (case opt_prop x (js ''quantity'') of JNum n \<Rightarrow> n | _ \<Rightarrow> Fin 1)"
    and u: "unitPrice y = (case opt_prop x (js ''unitPrice'') of JNum n \<Rightarrow> n | _ \<Rightarrow> Fin 0)"
    using assms by (auto simp: normalizeItem_def split: prod.splits)
  have c1: "(\<forall>s. opt_prop x (js ''id'') = JStr s \<longrightarrow> id' y = s)
      \<and> (\<not> is_string (opt_prop x (js ''id'')) \<longrightarrow> id' y = uid_source w (uid_count w))"
    unfolding i by (cases "opt_prop x (js ''id'')") (simp_all add: is_string_def)
  have c2: "(\<forall>s. opt_prop x (js ''description'') = JStr s \<longrightarrow> description y = s)
      \<and> (\<not> is_string (opt_prop x (js ''description'')) \<longrightarrow> description y = js '''')"
    unfolding d by (cases "opt_prop x (js ''description'')") (simp_all add: is_string_def)
  have c3: "(\<forall>n. opt_prop x (js ''quantity'') = JNum n \<longrightarrow> quantity y = n)
      \<and> (\<not> is_number (opt_prop x (js ''quantity'')) \<longrightarrow> quantity y = Fin 1)"
    unfolding q by (cases "opt_prop x (js ''quantity'')") (simp_all add: is_number_def)
  have c4: "(\<forall>n. opt_prop x (js ''unitPrice'') = JNum n \<longrightarrow> unitPrice y = n)
      \<and> (\<not> is_number (opt_prop x (js ''unitPrice'')) \<longrightarrow> unitPrice y = Fin 0)"
    unfolding u by (cases "opt_prop x (js ''unitPrice'')") (simp_all add: is_number_def)
  show ?thesis unfolding coerced_def using c1 c2 c3 c4 w by blast
qed

lemma fresh_before_Cons:
  "fresh_before (x # xs) (Suc k) = (if has_string_id x then 0 else 1) + fresh_before xs k"
  by (simp add: fresh_before_def)

lemma normalizeItems_coerced:
  "normalizeItems w xs = (ys, w') \<Longrightarrow>
     length ys = length xs
     \<and> w' = w\<lparr>uid_count := uid_count w + fresh_before xs (length xs)\<rparr>
     \<and> (\<forall>k < length xs. coerced (uid_source w (uid_count w + fresh_before xs k)) (xs ! k) (ys ! k))"
proof (induction xs arbitrary: w ys w')
  case Nil
  then show ?case by (simp add: fresh_before_def)
next
  case (Cons x xs)
  obtain y w1 where y: "normalizeItem w x = (y, w1)" by (cases "normalizeItem w x")
  obtain zs w2 where zs: "normalizeItems w1 xs = (zs, w2)" by (cases "normalizeItems w1 xs")
  from Cons.prems y zs have ys: "ys = y # zs" and w': "w' = w2" by simp_all
  from normalizeItem_coerced [OF y]
  have hc: "coerced (uid_source w (uid_count w)) x y"
    and hw: "w1 = (if has_string_id x then w else w\<lparr>uid_count := Suc (uid_count w)\<rparr>)"
    by blast+
  from Cons.IH [OF zs]
  have il: "length zs = length xs"
    and iw: "w2 = w1\<lparr>uid_count := uid_count w1 + fresh_before xs (length xs)\<rparr>"
    and ic: "\<And>k. k < length xs \<Longrightarrow>
               coerced (uid_source w1 (uid_count w1 + fresh_before xs k)) (xs ! k) (zs ! k)"
    by blast+
  have src: "uid_source w1 = uid_source w" using hw by (simp split: if_splits)
  have cnt: "uid_count w1 = uid_count w + (if has_string_id x then 0 else 1)"
    using hw by (simp split: if_splits)
  have a: "length ys = length (x # xs)" using ys il by simp
  have b: "w' = w\<lparr>uid_count := uid_count w + fresh_before (x # xs) (length (x # xs))\<rparr>"
    unfolding w' iw using hw by (simp add: fresh_before_Cons)
  have c: "coerced (uid_source w (uid_count w + fresh_before (x # xs) k)) ((x # xs) ! k) (ys ! k)"
    if "k < length (x # xs)" for k
  proof (cases k)
    case 0
    then show ?thesis using hc ys by (simp add: fresh_before_def)
  next
    case (Suc j)
    with that have "j < length xs" by simp
    from ic [OF this] show ?thesis unfolding Suc ys src cnt by (simp add: fresh_before_Cons add.assoc)
  qed
  show ?case using a b c by blast
qed

lemma normalizeInvoice_Inr:
  assumes "normalizeInvoice w v = Inr (iv, w')"
  shows "v \<noteq> JUndefined" "v \<noteq> JNull"
    and "(items iv, w') = (case get_prop v (js ''items'') of
                 JArr xs \<Rightarrow> normalizeItems w xs
               | _ \<Rightarrow> (let (d, w') = defaultItem w in ([d], w')))"
proof -
  show nn: "v \<noteq> JUndefined" "v \<noteq> JNull"
    using assms by (auto simp: normalizeInvoice_def split: if_splits)
  obtain its w1 where e: "(case get_prop v (js ''items'') of
                 JArr xs \<Rightarrow> normalizeItems w xs
               | _ \<Rightarrow> (let (d, w') = defaultItem w in ([d], w'))) = (its, w1)"
    by (metis surj_pair)
  from assms nn have "items iv = its \<and> w' = w1"
    unfolding normalizeInvoice_def e by auto
  with e show "(items iv, w') = (case get_prop v (js ''items'') of
                 JArr xs \<Rightarrow> normalizeItems w xs
               | _ \<Rightarrow> (let (d, w') = defaultItem w in ([d], w')))" by simp
qed

text \<open>
  Claim C6, as amended. For every input other than null and undefined (there
  \<open>normalizeInvoice\<close> raises a TypeError), \<open>normalizeInvoice\<close> returns an invoice. If
  \<open>input.items\<close> is not an array, its items are the single default line item (description
  "Service", quantity 1, unit price 0, the next generated id). If \<open>input.items\<close> is an array
  that is not empty, whatever its entries are, its items are the entries coerced one by one,
  in order: the id is kept if and only if it is a string and is otherwise the next generated
  id, the description is \<open>""\<close> when it is not a string, the quantity 1 and the unit price 0
  when they are not numbers. Nothing is said here of the empty array.
\<close>

theorem normalizeInvoice_items:
  assumes "v \<noteq> JUndefined" and "v \<noteq> JNull"
  shows "\<exists>iv w'. normalizeInvoice w v = Inr (iv, w')
         \<and> ((\<forall>xs. get_prop v (js ''items'') \<noteq> JArr xs) \<longrightarrow>
              items iv = [\<lparr>id' = uid_source w (uid_count w), description = js ''Service'',
                           quantity = Fin 1, unitPrice = Fin 0\<rparr>])
         \<and> (\<forall>xs. get_prop v (js ''items'') = JArr xs \<and> xs \<noteq> [] \<longrightarrow>
              length (items iv) = length xs
              \<and> (\<forall>k < length xs.
                    coerced (uid_source w (uid_count w + fresh_before xs k)) (xs ! k) (items iv ! k)))"
proof -
  from assms obtain iv w' where run: "normalizeInvoice w v = Inr (iv, w')"
    by (simp add: normalizeInvoice_def case_prod_beta Let_def)
  have "((\<forall>xs. get_prop v (js ''items'') \<noteq> JArr xs) \<longrightarrow>
              items iv = [\<lparr>id' = uid_source w (uid_count w), description = js ''Service'',
                           quantity = Fin 1, unitPrice = Fin 0\<rparr>])
         \<and> (\<forall>xs. get_prop v (js ''items'') = JArr xs \<and> xs \<noteq> [] \<longrightarrow>
              length (items iv) = length xs
              \<and> (\<forall>k < length xs.
                    coerced (uid_source w (uid_count w + fresh_before xs k)) (xs ! k) (items iv ! k)))"
  proof (cases "\<exists>xs. get_prop v (js ''items'') = JArr xs")
    case True
    then obtain xs where xs: "get_prop v (js ''items'') = JArr xs" by blast
    with normalizeInvoice_Inr(3) [OF run] have "normalizeItems w xs = (items iv, w')"
      by simp
    from normalizeItems_coerced [OF this] xs show ?thesis by simp
  next
    case False
    then have "(case get_prop v (js ''items'') of
                   JArr xs \<Rightarrow> normalizeItems w xs
                 | _ \<Rightarrow> (let (d, w') = defaultItem w in ([d], w'))) = (let (d, w') = defaultItem w in ([d], w'))"
      by (cases "get_prop v (js ''items'')") simp_all
    with normalizeInvoice_Inr(3) [OF run] have "items iv = [fst (defaultItem w)]"
      by (simp add: defaultItem_def uid_def)
    with False show ?thesis by (simp add: defaultItem_def uid_def)
  qed
  with run show ?thesis by blast
qed

text \<open>
  Claim C6 as stated fails: for \<open>items: [5]\<close>, an array of one entry that is not an
  object, the result is not the default "Service" item but the entry coerced, with the
  description \<open>""\<close>.
\<close>

theorem normalizeInvoice_items_counterexample:
  "normalizeInvoice world0 (JObj [(js ''items'', JArr [JNum (Fin 5)])]) =
     Inr (\<lparr>fromName = JStr (js ''''), fromAddress = JStr (js ''''), billToName = JStr (js ''''),
           billToAddress = JStr (js ''''), invoiceNumber = JStr (js ''''),
           issueDate = JStr (js ''2026-01-01''), dueDate = JStr (js ''2026-01-15''),
           currency = JStr (js ''USD''), taxRatePct = Fin 0, notes' = JStr (js ''''),
           items = [\<lparr>id' = js ''u'', description = js '''', quantity = Fin 1, unitPrice = Fin 0\<rparr>]\<rparr>,
          world0\<lparr>uid_count := 1\<rparr>)
   \<and> js '''' \<noteq> js ''Service''"
  by (simp add: normalizeInvoice_def get_prop_def opt_prop_def nullish_def normalizeItem_def uid_def
        world0_def todayISO_def plusDaysISO_def js_def)

text \<open>
  Claim C7 at the input \<open>{ "fromName": 5 }\<close>: \<open>fromName\<close> is not a string, and the
  result keeps the number 5 there instead of \<open>""\<close>, since \<open>??\<close> replaces only null and
  undefined.
\<close>

theorem normalizeInvoice_string_field_failing:
  "normalizeInvoice world0 (JObj [(js ''fromName'', JNum (Fin 5))]) =
     Inr (\<lparr>fromName = JNum (Fin 5), fromAddress = JStr (js ''''), billToName = JStr (js ''''),
           billToAddress = JStr (js ''''), invoiceNumber = JStr (js ''''),
           issueDate = JStr (js ''2026-01-01''), dueDate = JStr (js ''2026-01-15''),
           currency = JStr (js ''USD''), taxRatePct = Fin 0, notes' = JStr (js ''''),
           items = [\<lparr>id' = js ''u'', description = js ''Service'', quantity = Fin 1, unitPrice = Fin 0\<rparr>]\<rparr>,
          world0\<lparr>uid_count := 1\<rparr>)"
  by (simp add: normalizeInvoice_def get_prop_def opt_prop_def nullish_def defaultItem_def uid_def
        world0_def todayISO_def plusDaysISO_def js_def)

text \<open>
  Claim C2 at the input \<open>{ "notes": true, "items": [] }\<close>: the result has a boolean in the
  string field \<open>notes\<close>, and its list of items is empty.
\<close>

theorem normalizeInvoice_invariant_failing:
  "normalizeInvoice world0 (JObj [(js ''notes'', JBool True), (js ''items'', JArr [])]) =
     Inr (\<lparr>fromName = JStr (js ''''), fromAddress = JStr (js ''''), billToName = JStr (js ''''),
           billToAddress = JStr (js ''''), invoiceNumber = JStr (js ''''),
           issueDate = JStr (js ''2026-01-01''), dueDate = JStr (js ''2026-01-15''),
           currency = JStr (js ''USD''), taxRatePct = Fin 0, notes' = JBool True,
           items = []\<rparr>,
          world0)"
  by (simp add: normalizeInvoice_def get_prop_def opt_prop_def nullish_def defaultItem_def uid_def
        world0_def todayISO_def plusDaysISO_def js_def)

theorem normalizeInvoice_items_witness:
  "normalizeInvoice world0 partial_input = Inr (partial_output, world0\<lparr>uid_count := 1\<rparr>)
   \<and> length (items partial_output) = 2
   \<and> coerced (js ''u'') (JNum (Fin 5)) (items partial_output ! 1)"
proof -
  have run: "normalizeInvoice world0 partial_input = Inr (partial_output, world0\<lparr>uid_count := 1\<rparr>)"
    by (simp add: normalizeInvoice_def get_prop_def opt_prop_def nullish_def normalizeItem_def uid_def
          world0_def todayISO_def plusDaysISO_def js_def partial_input_def partial_output_def)
  have arr: "get_prop partial_input (js ''items'') =
      JArr [JObj [(js ''id'', JStr (js ''a'')), (js ''quantity'', JNum (Fin 2))], JNum (Fin 5)]"
    by (simp add: get_prop_def partial_input_def js_def)
  have fb: "fresh_before [JObj [(js ''id'', JStr (js ''a'')), (js ''quantity'', JNum (Fin 2))], JNum (Fin 5)] (Suc 0) = 0"
    by (simp add: fresh_before_def has_string_id_def opt_prop_def get_prop_def is_string_def js_def)
  let ?xs = "[JObj [(js ''id'', JStr (js ''a'')), (js ''quantity'', JNum (Fin 2))], JNum (Fin 5)]"
  have nn: "partial_input \<noteq> JUndefined" "partial_input \<noteq> JNull"
    by (simp_all add: partial_input_def)
  from normalizeInvoice_items [OF nn, of world0] run arr
  have all: "length (items partial_output) = length ?xs
     \<and> (\<forall>k < length ?xs. coerced (uid_source world0 (uid_count world0 + fresh_before ?xs k))
            (?xs ! k) (items partial_output ! k))"
    by auto
  then have len: "length (items partial_output) = 2" by simp
  from all have "1 < length ?xs \<longrightarrow> coerced (uid_source world0 (uid_count world0 + fresh_before ?xs 1))
            (?xs ! 1) (items partial_output ! 1)"
    by blast
  then have "coerced (js ''u'') (JNum (Fin 5)) (items partial_output ! 1)"
    by (simp add: fb world0_def)
  with len run show ?thesis by simp
qed

lemma normalizeItem_js_of_item: "normalizeItem w (js_of_item x) = (x, w)"
  by (simp add: normalizeItem_def js_of_item_def opt_prop_def get_prop_def js_def)

lemma normalizeItems_js_of_item: "normalizeItems w (map js_of_item xs) = (xs, w)"
  by (induction xs) (simp_all add: normalizeItem_js_of_item)

lemma nullish_idem:
  "d \<noteq> JUndefined \<Longrightarrow> d \<noteq> JNull \<Longrightarrow> nullish (nullish v d) d' = nullish v d"
  by (simp add: nullish_def)

lemma get_prop_js_of_invoice:
  "get_prop (js_of_invoice iv) (js ''fromName'') = fromName iv"
  "get_prop (js_of_invoice iv) (js ''fromAddress'') = fromAddress iv"
  "get_prop (js_of_invoice iv) (js ''billToName'') = billToName iv"
  "get_prop (js_of_invoice iv) (js ''billToAddress'') = billToAddress iv"
  "get_prop (js_of_invoice iv) (js ''invoiceNumber'') = invoiceNumber iv"
  "get_prop (js_of_invoice iv) (js ''issueDate'') = issueDate iv"
  "get_prop (js_of_invoice iv) (js ''dueDate'') = dueDate iv"
  "get_prop (js_of_invoice iv) (js ''currency'') = currency iv"
  "get_prop (js_of_invoice iv) (js ''taxRatePct'') = JNum (taxRatePct iv)"
  "get_prop (js_of_invoice iv) (js ''notes'') = notes' iv"
  "get_prop (js_of_invoice iv) (js ''items'') = JArr (map js_of_item (items iv))"
  by (simp_all add: get_prop_def js_of_invoice_def js_def)

lemma normalizeInvoice_header:
  assumes "normalizeInvoice w v = Inr (iv, w')"
  shows "fromName iv = nullish (get_prop v (js ''fromName'')) (JStr (js ''''))"
    "fromAddress iv = nullish (get_prop v (js ''fromAddress'')) (JStr (js ''''))"
    "billToName iv = nullish (get_prop v (js ''billToName'')) (JStr (js ''''))"
    "billToAddress iv = nullish (get_prop v (js ''billToAddress'')) (JStr (js ''''))"
    "invoiceNumber iv = nullish (get_prop v (js ''invoiceNumber'')) (JStr (js ''''))"
    "issueDate iv = nullish (get_prop v (js ''issueDate'')) (JStr (todayISO w))"
    "dueDate iv = nullish (get_prop v (js ''dueDate'')) (JStr (plusDaysISO w 14))"
    "currency iv = nullish (get_prop v (js ''currency'')) (JStr (js ''USD''))"
    "taxRatePct iv = (case get_prop v (js ''taxRatePct'') of JNum n \<Rightarrow> n | _ \<Rightarrow> Fin 0)"
    "notes' iv = nullish (get_prop v (js ''notes'')) (JStr (js ''''))"
  using assms normalizeInvoice_Inr(1,2) [OF assms]
  by (auto simp: normalizeInvoice_def split: prod.splits)

text \<open>
  Claim C4. Normalizing the invoice that \<open>normalizeInvoice\<close> returned, at any later time,
  returns that same invoice: every field is equal, every item id is the one it had, and no
  id is generated (the world is left as it was).
\<close>

theorem normalizeInvoice_idempotent:
  assumes "normalizeInvoice w v = Inr (iv, w')"
  shows "normalizeInvoice w2 (js_of_invoice iv) = Inr (iv, w2)"
proof -
  have obj: "js_of_invoice iv \<noteq> JUndefined" "js_of_invoice iv \<noteq> JNull"
    by (simp_all add: js_of_invoice_def)
  note f = normalizeInvoice_header [OF assms]
  show ?thesis
    unfolding normalizeInvoice_def using obj
    by (simp add: get_prop_js_of_invoice normalizeItems_js_of_item f(1-8,10) nullish_idem)
qed

theorem normalizeInvoice_idempotent_witness:
  "normalizeInvoice world0 partial_input = Inr (partial_output, world0\<lparr>uid_count := 1\<rparr>)
   \<and> normalizeInvoice (world0\<lparr>uid_count := 7\<rparr>) (js_of_invoice partial_output)
       = Inr (partial_output, world0\<lparr>uid_count := 7\<rparr>)"
proof -
  have run: "normalizeInvoice world0 partial_input = Inr (partial_output, world0\<lparr>uid_count := 1\<rparr>)"
    by (simp add: normalizeInvoice_def get_prop_def opt_prop_def nullish_def normalizeItem_def uid_def
          world0_def todayISO_def plusDaysISO_def js_def partial_input_def partial_output_def)
  from normalizeInvoice_idempotent [OF run] run show ?thesis by simp
qed

section \<open>Properties of the share link decoding\<close>

lemma fallback_Inr:
  "\<exists>iv w'. normalizeInvoice w (js_of_invoice ex) = Inr (iv, w')
     \<and> fallback ex w = Inr (\<lparr>invoice = iv, status = js ''''\<rparr>, w')"
proof -
  have "js_of_invoice ex \<noteq> JUndefined" "js_of_invoice ex \<noteq> JNull"
    by (simp_all add: js_of_invoice_def)
  then obtain iv w' where "normalizeInvoice w (js_of_invoice ex) = Inr (iv, w')"
    by (cases "normalizeInvoice w (js_of_invoice ex)")
      (auto simp: normalizeInvoice_def split: prod.splits)
  then show ?thesis by (auto simp: fallback_def)
qed

lemma falsy_safeJsonParse:
  "falsy (safeJsonParse json) \<longleftrightarrow> (case JSON_parse json of Inl e \<Rightarrow> True | Inr v \<Rightarrow> falsy v)"
  by (simp add: safeJsonParse_def falsy_def split: sum.splits)

text \<open>
  Claim C8, as amended. \<open>parseInvoiceFromUrl\<close> never raises. When a stage of the decoding
  fails (\<open>atob\<close> raises, \<open>JSON.parse\<close> raises, or the value parsed is falsy), the result is
  the fallback: \<open>normalizeInvoice(exampleInvoice)\<close> with the empty status, which is also the
  result when no data is present, so the status does not tell the two cases apart.
\<close>

theorem parseInvoiceFromUrl_fallback:
  "(\<exists>r. parseInvoiceFromUrl ex window data w = Inr r)
   \<and> (decode_fails d \<longrightarrow>
        parseInvoiceFromUrl ex True (Some d) w = fallback ex w
        \<and> parseInvoiceFromUrl ex True (Some d) w = parseInvoiceFromUrl ex True None w)
   \<and> (\<exists>iv w'. normalizeInvoice w (js_of_invoice ex) = Inr (iv, w')
        \<and> fallback ex w = Inr (\<lparr>invoice = iv, status = js ''''\<rparr>, w'))"
proof -
  obtain iv w' where f: "fallback ex w = Inr (\<lparr>invoice = iv, status = js ''''\<rparr>, w')"
    using fallback_Inr [of w ex] by blast
  have a: "\<exists>r. parseInvoiceFromUrl ex window data w = Inr r"
    unfolding parseInvoiceFromUrl_def Let_def using f
    by (auto split: option.splits sum.splits prod.splits)
  have b: "parseInvoiceFromUrl ex True (Some d) w = fallback ex w" if "decode_fails d"
    using that unfolding parseInvoiceFromUrl_def decode_fails_def Let_def
    by (auto simp: falsy_safeJsonParse split: sum.splits)
  have c: "parseInvoiceFromUrl ex True None w = fallback ex w"
    by (simp add: parseInvoiceFromUrl_def)
  show ?thesis using a b c fallback_Inr [of w ex] by simp
qed

lemma garbage_fails: "base64UrlDecodeUtf8 (js ''not-base64!!'') = Inl InvalidCharacterError"
  by (simp add: base64UrlDecodeUtf8_def replaceAll_def slice_def js_def atob_def is_ascii_ws_def
        strip_padding_def b64_index_def)

theorem parseInvoiceFromUrl_fallback_witness:
  "decode_fails (js ''not-base64!!'')
   \<and> parseInvoiceFromUrl example0 True (Some (js ''not-base64!!'')) world0 = fallback example0 world0"
proof -
  have d: "decode_fails (js ''not-base64!!'')" by (simp add: decode_fails_def garbage_fails)
  with parseInvoiceFromUrl_fallback [of example0 True None world0 "js ''not-base64!!''"]
  show ?thesis by blast
qed

lemma normalizeInvoice_valid:
  assumes "valid_invoice iv"
  shows "normalizeInvoice w (js_of_invoice iv) = Inr (iv, w)"
proof -
  have obj: "js_of_invoice iv \<noteq> JUndefined" "js_of_invoice iv \<noteq> JNull"
    by (simp_all add: js_of_invoice_def)
  have n: "nullish v d = v" if "is_string v" for v d
    using that by (cases v) (simp_all add: nullish_def is_string_def)
  show ?thesis
    unfolding normalizeInvoice_def using obj assms
    by (simp add: get_prop_js_of_invoice normalizeItems_js_of_item n valid_invoice_def)
qed

lemma example0_eq:
  "example0 =
     \<lparr>fromName = JStr (js ''Acme Studio LLC''),
      fromAddress = JStr (js ''1-2-3 Shibuya'' @ [10] @ js ''Tokyo, Japan''),
      billToName = JStr (js ''Client Co.''),
      billToAddress = JStr (js ''500 Market St'' @ [10] @ js ''San Francisco, CA''),
      invoiceNumber = JStr (js ''INV-1007''),
      issueDate = JStr (js ''2026-01-01''),
      dueDate = JStr (js ''2026-01-15''),
      currency = JStr (js ''USD''),
      taxRatePct = Fin 10,
      notes' = JStr (js ''Thank you for your business. Please include the invoice number on your payment reference.''),
      items = [\<lparr>id' = js ''u'', description = js ''Landing page design (Figma)'', quantity = Fin 1,
                 unitPrice = Fin 900\<rparr>,
               \<lparr>id' = js ''ux'', description = js ''Implementation (Next.js)'', quantity = Fin 10,
                 unitPrice = Fin 90\<rparr>]\<rparr>"
  by (simp add: example0_def exampleInvoice_def uid_def world0_def todayISO_def plusDaysISO_def js_def)

lemma fallback_example0:
  "fallback example0 w = Inr (\<lparr>invoice = example0, status = js ''''\<rparr>, w)"
proof -
  have "valid_invoice example0" by (simp add: example0_eq valid_invoice_def is_string_def)
  then show ?thesis by (simp add: fallback_def normalizeInvoice_valid)
qed

lemma bad_utf8_decodes:
  "base64UrlDecodeUtf8 (js ''eyJhIjoi_yJ9'') = Inr replaced_json"
  by (simp add: replaced_json_def base64UrlDecodeUtf8_def replaceAll_def slice_def js_def atob_def is_ascii_ws_def
        strip_padding_def b64_index_def text_decode_def strip_bom_def utf16_of_def)

lemma bad_utf8_parses:
  "JSON_parse replaced_json = Inr (JObj [(js ''a'', JStr [65533])])"
  by (simp add: replaced_json_def JSON_parse_def js_def is_json_ws_def is_digit_def parse_tokens_def step_token_def
        step_value_def step_key_def step_close_def)

text \<open>
  Claim C8 as stated fails twice. The token \<open>not-base64!!\<close> gives the same invoice and the
  same status \<open>''\<close> as no data at all. And the token \<open>eyJhIjoi_yJ9\<close>, the bytes of
  \<open>{"a":"?"}\<close> with the byte FF for \<open>?\<close>, is not valid UTF-8, yet it is decoded (FF becomes
  U+FFFD) and the result is a success, not the fallback.
\<close>

theorem parseInvoiceFromUrl_counterexample:
  "parseInvoiceFromUrl example0 True (Some (js ''not-base64!!'')) world0
     = Inr (\<lparr>invoice = example0, status = js ''''\<rparr>, world0)
   \<and> parseInvoiceFromUrl example0 True None world0
     = Inr (\<lparr>invoice = example0, status = js ''''\<rparr>, world0)
   \<and> parseInvoiceFromUrl example0 True (Some (js ''eyJhIjoi_yJ9'')) world0
     = Inr (\<lparr>invoice =
             \<lparr>fromName = JStr (js ''''), fromAddress = JStr (js ''''), billToName = JStr (js ''''),
              billToAddress = JStr (js ''''), invoiceNumber = JStr (js ''''),
              issueDate = JStr (js ''2026-01-01''), dueDate = JStr (js ''2026-01-15''),
              currency = JStr (js ''USD''), taxRatePct = Fin 0, notes' = JStr (js ''''),
              items = [\<lparr>id' = js ''u'', description = js ''Service'', quantity = Fin 1,
                         unitPrice = Fin 0\<rparr>]\<rparr>,
            status = js ''Loaded invoice from share link.''\<rparr>, world0\<lparr>uid_count := 1\<rparr>)"
proof -
  have a: "parseInvoiceFromUrl example0 True (Some (js ''not-base64!!'')) world0
     = Inr (\<lparr>invoice = example0, status = js ''''\<rparr>, world0)"
    by (simp add: parseInvoiceFromUrl_def garbage_fails fallback_example0)
  have b: "parseInvoiceFromUrl example0 True None world0
     = Inr (\<lparr>invoice = example0, status = js ''''\<rparr>, world0)"
    by (simp add: parseInvoiceFromUrl_def fallback_example0)
  have n: "normalizeInvoice world0 (JObj [(js ''a'', JStr [65533])]) =
     Inr (\<lparr>fromName = JStr (js ''''), fromAddress = JStr (js ''''), billToName = JStr (js ''''),
              billToAddress = JStr (js ''''), invoiceNumber = JStr (js ''''),
              issueDate = JStr (js ''2026-01-01''), dueDate = JStr (js ''2026-01-15''),
              currency = JStr (js ''USD''), taxRatePct = Fin 0, notes' = JStr (js ''''),
              items = [\<lparr>id' = js ''u'', description = js ''Service'', quantity = Fin 1,
                         unitPrice = Fin 0\<rparr>]\<rparr>, world0\<lparr>uid_count := 1\<rparr>)"
    by (simp add: normalizeInvoice_def get_prop_def opt_prop_def nullish_def defaultItem_def uid_def
        world0_def todayISO_def plusDaysISO_def js_def)
  have ne: "js ''eyJhIjoi_yJ9'' \<noteq> []" by (simp add: js_def)
  have c: "parseInvoiceFromUrl example0 True (Some (js ''eyJhIjoi_yJ9'')) world0
     = Inr (\<lparr>invoice =
             \<lparr>fromName = JStr (js ''''), fromAddress = JStr (js ''''), billToName = JStr (js ''''),
              billToAddress = JStr (js ''''), invoiceNumber = JStr (js ''''),
              issueDate = JStr (js ''2026-01-01''), dueDate = JStr (js ''2026-01-15''),
              currency = JStr (js ''USD''), taxRatePct = Fin 0, notes' = JStr (js ''''),
              items = [\<lparr>id' = js ''u'', description = js ''Service'', quantity = Fin 1,
                         unitPrice = Fin 0\<rparr>]\<rparr>,
            status = js ''Loaded invoice from share link.''\<rparr>, world0\<lparr>uid_count := 1\<rparr>)"
    unfolding parseInvoiceFromUrl_def
    by (simp add: ne bad_utf8_decodes safeJsonParse_def bad_utf8_parses falsy_def n)
  show ?thesis using a b c by simp
qed

section \<open>Binary64 arithmetic\<close>

lemma pow2_pos: "0 < pow2 e"
  by (simp add: pow2_def)

lemma pow2_add: "pow2 (a + b) = pow2 a * pow2 b"
  by (simp add: pow2_def power_int_add)

lemma pow2_nat: "0 \<le> e \<Longrightarrow> pow2 e = 2 ^ nat e"
  by (simp add: pow2_def power_int_def)

lemma pow2_mono: "a \<le> b \<Longrightarrow> pow2 a \<le> pow2 b"
  by (simp add: pow2_def power_int_increasing)

lemma pow2_strict_mono: "a < b \<Longrightarrow> pow2 a < pow2 b"
  by (simp add: pow2_def power_int_strict_increasing)

lemma pow2_less_iff: "pow2 a < pow2 b \<longleftrightarrow> a < b"
  by (metis pow2_mono pow2_strict_mono not_less)

lemma pow2_le_iff: "pow2 a \<le> pow2 b \<longleftrightarrow> a \<le> b"
  by (metis pow2_mono pow2_strict_mono not_less)

lemma pow2_diff: "pow2 (a - b) = pow2 a / pow2 b"
proof -
  have "pow2 (a - b) * pow2 b = pow2 a" by (simp flip: pow2_add)
  then show ?thesis using pow2_pos [of b] by (simp add: field_simps)
qed

lemma ilog2_bounds:
  assumes "0 < a"
  shows "pow2 (ilog2 a) \<le> a \<and> a < pow2 (ilog2 a + 1)"
proof -
  obtain p q where pq: "quotient_of a = (p, q)" by (cases "quotient_of a")
  then have q: "0 < q" and a: "a = of_int p / of_int q"
    by (simp_all add: quotient_of_denom_pos quotient_of_div)
  with assms have p: "0 < p" by (simp add: zero_less_divide_iff)
  define bp where "bp = bitlen p"
  define bq where "bq = bitlen q"
  from bitlen_bounds [OF p] have p1: "2 ^ nat (bp - 1) \<le> p" and p2: "p < 2 ^ nat bp"
    by (simp_all add: bp_def)
  from bitlen_bounds [OF q] have q1: "2 ^ nat (bq - 1) \<le> q" and q2: "q < 2 ^ nat bq"
    by (simp_all add: bq_def)
  have bp1: "1 \<le> bp" using p by (simp add: bp_def bitlen_alt_def)
  have bq1: "1 \<le> bq" using q by (simp add: bq_def bitlen_alt_def)
  have P1: "pow2 (bp - 1) \<le> of_int p" 
    using p1 bp1 by (simp add: pow2_nat)
  have P2: "of_int p < pow2 bp"
    using p2 bp1 by (simp add: pow2_nat)
  have Q1: "pow2 (bq - 1) \<le> of_int q" 
    using q1 bq1 by (simp add: pow2_nat)
  have Q2: "of_int q < pow2 bq"
    using q2 bq1 by (simp add: pow2_nat)
  have qpos: "(0::rat) < of_int q" using q by simp
  have up: "a < pow2 (bp - bq + 1)"
  proof -
    have "of_int p < pow2 bp" by (rule P2)
    also have "pow2 bp = pow2 (bp - bq + 1) * pow2 (bq - 1)" by (simp flip: pow2_add)
    also have "\<dots> \<le> pow2 (bp - bq + 1) * of_int q"
      using Q1 pow2_pos [of "bp - bq + 1"] by (simp add: mult_left_mono)
    finally show ?thesis using qpos by (simp add: a pos_divide_less_eq)
  qed
  have lo: "pow2 (bp - bq - 1) < a"
  proof -
    have "pow2 (bp - bq - 1) * of_int q < pow2 (bp - bq - 1) * pow2 bq"
      using Q2 pow2_pos [of "bp - bq - 1"] by (simp add: mult_strict_left_mono)
    also have "\<dots> = pow2 (bp - 1)" by (simp flip: pow2_add)
    also have "\<dots> \<le> of_int p" by (rule P1)
    finally show ?thesis using qpos by (simp add: a pos_less_divide_eq)
  qed
  have il: "ilog2 a = (if pow2 (bp - bq) \<le> a then bp - bq else bp - bq - 1)"
    by (simp add: ilog2_def pq bp_def bq_def Let_def)
  show ?thesis
  proof (cases "pow2 (bp - bq) \<le> a")
    case True
    then show ?thesis using up il by simp
  next
    case False
    then show ?thesis using lo il by simp
  qed
qed

lemma ilog2_eqI:
  assumes "pow2 e \<le> a" and "a < pow2 (e + 1)"
  shows "ilog2 a = e"
proof -
  have apos: "0 < a" using assms(1) pow2_pos [of e] by simp
  from ilog2_bounds [OF apos]
  have b1: "pow2 (ilog2 a) \<le> a" and b2: "a < pow2 (ilog2 a + 1)" by simp_all
  from assms(1) b2 have "pow2 e < pow2 (ilog2 a + 1)" by simp
  then have "e < ilog2 a + 1" by (simp add: pow2_less_iff)
  moreover from b1 assms(2) have "pow2 (ilog2 a) < pow2 (e + 1)" by simp
  then have "ilog2 a < e + 1" by (simp add: pow2_less_iff)
  ultimately show ?thesis by simp
qed

lemma round_half_even_bounds:
  "\<bar>of_int (round_half_even m) - m\<bar> \<le> 1 / 2"
proof -
  have "of_int \<lfloor>m\<rfloor> \<le> m" "m < of_int \<lfloor>m\<rfloor> + 1" by linarith+
  then show ?thesis by (auto simp: round_half_even_def Let_def)
qed

lemma round_half_even_eqI:
  assumes "\<bar>m - of_int k\<bar> < 1 / 2"
  shows "round_half_even m = k"
proof -
  have "\<bar>of_int (round_half_even m) - m\<bar> \<le> 1 / 2" by (rule round_half_even_bounds)
  with assms have "\<bar>(of_int (round_half_even m) :: rat) - of_int k\<bar> < 1" by linarith
  then have "\<bar>(of_int (round_half_even m - k) :: rat)\<bar> < 1" by simp
  then have "\<bar>round_half_even m - k\<bar> < 1"
    by (metis of_int_abs of_int_less_1_iff)
  then show ?thesis by simp
qed

lemma round_half_even_of_int: "round_half_even (of_int n) = n"
  by (rule round_half_even_eqI) simp

lemma round_half_even_mono:
  assumes "m \<le> m'"
  shows "round_half_even m \<le> round_half_even m'"
proof (rule ccontr)
  assume "\<not> ?thesis"
  then have lt: "round_half_even m' + 1 \<le> round_half_even m" by simp
  have b: "\<bar>of_int (round_half_even m) - m\<bar> \<le> 1 / 2"
    and b': "\<bar>of_int (round_half_even m') - m'\<bar> \<le> 1 / 2"
    by (rule round_half_even_bounds)+
  from lt have "(of_int (round_half_even m') :: rat) + 1 \<le> of_int (round_half_even m)"
    by (metis of_int_1 of_int_add of_int_le_iff)
  with b b' assms have eq: "m = m'" and t: "of_int (round_half_even m) = m + 1 / 2"
    and t': "of_int (round_half_even m') = m' - 1 / 2"
    by linarith+
  from t t' eq have "(of_int (round_half_even m) :: rat) = of_int (round_half_even m') + 1" by simp
  then have s: "round_half_even m = round_half_even m' + 1"
    by (metis of_int_1 of_int_add of_int_eq_iff)
  then show False using eq by simp
qed

lemma quantum_pos: "0 < quantum a"
  by (simp add: quantum_def pow2_pos)

lemma abs_scale: "0 < (q::rat) \<Longrightarrow> \<bar>x - a / q\<bar> * q = \<bar>x * q - a\<bar>"
proof -
  assume q: "0 < q"
  then have "\<bar>x - a / q\<bar> * q = \<bar>(x - a / q) * q\<bar>" by (simp add: abs_mult)
  also have "(x - a / q) * q = x * q - a" using q by (simp add: field_simps)
  finally show ?thesis .
qed

lemma nearest_err:
  "\<bar>nearest a - a\<bar> \<le> quantum a / 2"
proof -
  have "\<bar>of_int (round_half_even (a / quantum a)) - a / quantum a\<bar> \<le> 1 / 2"
    by (rule round_half_even_bounds)
  then have "\<bar>of_int (round_half_even (a / quantum a)) - a / quantum a\<bar> * quantum a \<le> 1 / 2 * quantum a"
    using quantum_pos [of a] by (simp add: mult_right_mono)
  then show ?thesis
    by (simp add: nearest_def abs_scale [OF quantum_pos])
qed

lemma nearest_exact:
  assumes a: "a = of_int k * pow2 e" and k: "0 < k" "k < 2 ^ 53" and e: "- 1074 \<le> e"
  shows "nearest a = a"
proof -
  have apos: "0 < a" using a k pow2_pos [of e] by simp
  have "(of_int k :: rat) < 2 ^ 53" using k by simp
  then have "a < 2 ^ 53 * pow2 e"
    using pow2_pos [of e] unfolding a by (simp add: mult_strict_right_mono)
  then have "a < pow2 (53 + e)" by (simp add: pow2_add pow2_nat)
  moreover have "pow2 (ilog2 a) \<le> a" using ilog2_bounds [OF apos] by simp
  ultimately have "pow2 (ilog2 a) < pow2 (53 + e)" by simp
  then have il: "ilog2 a - 52 \<le> e" by (simp add: pow2_less_iff)
  define d where "d = e - (max (ilog2 a) (- 1022) - 52)"
  define q where "q = quantum a"
  have d: "0 \<le> d" using il e by (simp add: d_def)
  have qpos: "0 < q" by (simp add: q_def quantum_pos)
  have pe: "pow2 e = pow2 d * q"
    by (simp add: q_def quantum_def d_def flip: pow2_add)
  have aq: "a = of_int (k * 2 ^ nat d) * q"
    using d by (simp add: a pe pow2_nat)
  then have "a / q = of_int (k * 2 ^ nat d)" using qpos by simp
  then have "round_half_even (a / q) = k * 2 ^ nat d"
    by (simp only: round_half_even_of_int)
  then have "nearest a = of_int (k * 2 ^ nat d) * q" by (simp add: nearest_def q_def)
  with aq show ?thesis by simp
qed

lemma round_half_even_cert:
  assumes "of_int f \<le> m" and "m < of_int f + 1"
    and "k = (if m - of_int f < 1 / 2 then f else if 1 / 2 < m - of_int f then f + 1
              else if even f then f else f + 1)"
  shows "round_half_even m = k"
proof -
  have "\<lfloor>m\<rfloor> = f" using assms(1,2) by linarith
  then show ?thesis by (simp add: round_half_even_def assms(3))
qed

lemma quantum_eq: "pow2 e \<le> a \<Longrightarrow> a < pow2 (e + 1) \<Longrightarrow> - 1022 \<le> e \<Longrightarrow> quantum a = pow2 (e - 52)"
  by (simp add: quantum_def ilog2_eqI)

lemma nearest_range:
  assumes "pow2 e \<le> a" and "a < pow2 (e + 1)" and "- 1022 \<le> e"
  shows "pow2 e \<le> nearest a \<and> nearest a \<le> pow2 (e + 1)"
proof -
  define q where "q = pow2 (e - 52)"
  have q: "quantum a = q" using assms by (simp add: q_def quantum_eq)
  have qpos: "0 < q" by (simp add: q_def pow2_pos)
  have "pow2 e = pow2 52 * q" "pow2 (e + 1) = pow2 53 * q"
    by (simp_all add: q_def add.commute flip: pow2_add)
  then have lo: "pow2 e = of_int (2 ^ 52) * q" and hi: "pow2 (e + 1) = of_int (2 ^ 53) * q"
    by (simp_all add: pow2_def)
  from assms(1) have "of_int (2 ^ 52) \<le> a / q" using qpos by (simp add: lo pos_le_divide_eq)
  then have "round_half_even (of_int (2 ^ 52)) \<le> round_half_even (a / q)"
    by (rule round_half_even_mono)
  then have k1: "2 ^ 52 \<le> round_half_even (a / q)" by (simp only: round_half_even_of_int)
  from assms(2) have "a / q \<le> of_int (2 ^ 53)" using qpos by (simp add: hi pos_divide_le_eq)
  then have "round_half_even (a / q) \<le> round_half_even (of_int (2 ^ 53))"
    by (rule round_half_even_mono)
  then have k2: "round_half_even (a / q) \<le> 2 ^ 53" by (simp only: round_half_even_of_int)
  have n: "nearest a = of_int (round_half_even (a / q)) * q" by (simp add: nearest_def q)
  from k1 have "(of_int (2 ^ 52) :: rat) \<le> of_int (round_half_even (a / q))"
    by (simp only: of_int_le_iff)
  then have "of_int (2 ^ 52) * q \<le> nearest a" using qpos unfolding n by (rule mult_right_mono [OF _ less_imp_le])
  moreover from k2 have "(of_int (round_half_even (a / q)) :: rat) \<le> of_int (2 ^ 53)"
    by (simp only: of_int_le_iff)
  then have "nearest a \<le> of_int (2 ^ 53) * q" using qpos unfolding n by (rule mult_right_mono [OF _ less_imp_le])
  ultimately show ?thesis by (simp only: lo hi)
qed

lemma fl_pos_Fin:
  assumes "0 < a" and "nearest a < pow2 1024" and "0 < nearest a"
  shows "fl a = Fin (nearest a)" and "fl (- a) = Fin (- nearest a)"
  using assms by (simp_all add: fl_def Let_def)

lemma fl_cert:
  assumes "pow2 e \<le> a" and "a < pow2 (e + 1)" and "- 1022 \<le> e" and "e \<le> 1022"
    and "of_int f \<le> a / pow2 (e - 52)" and "a / pow2 (e - 52) < of_int f + 1"
    and "k = (if a / pow2 (e - 52) - of_int f < 1 / 2 then f
              else if 1 / 2 < a / pow2 (e - 52) - of_int f then f + 1
              else if even f then f else f + 1)"
    and "v = of_int k * pow2 (e - 52)"
  shows "fl a = Fin v" and "fl (- a) = Fin (- v)"
proof -
  have apos: "0 < a" using assms(1) pow2_pos [of e] by simp
  have q: "quantum a = pow2 (e - 52)" using assms(1-3) by (rule quantum_eq)
  have "round_half_even (a / pow2 (e - 52)) = k"
    using assms(5-7) by (rule round_half_even_cert)
  then have n: "nearest a = v" by (simp add: nearest_def q assms(8))
  from nearest_range [OF assms(1-3)] have r1: "pow2 e \<le> nearest a" and r2: "nearest a \<le> pow2 (e + 1)"
    by simp_all
  have "pow2 (e + 1) < pow2 1024" using assms(4) by (simp add: pow2_less_iff)
  with r2 have b: "nearest a < pow2 1024" by simp
  from r1 pow2_pos [of e] have p: "0 < nearest a" by simp
  from fl_pos_Fin [OF apos b p] n show "fl a = Fin v" and "fl (- a) = Fin (- v)" by simp_all
qed

lemma fl_exact:
  assumes "a = of_int k * pow2 e" and "0 < k" and "k < 2 ^ 53" and "- 1074 \<le> e" and "e \<le> 970"
  shows "fl a = Fin a" and "fl (- a) = Fin (- a)"
proof -
  have apos: "0 < a" using assms(1,2) pow2_pos [of e] by simp
  have n: "nearest a = a" using assms(1-4) by (rule nearest_exact)
  have "(of_int k :: rat) < 2 ^ 53" using assms(3) by simp
  then have "a < 2 ^ 53 * pow2 e"
    using pow2_pos [of e] unfolding assms(1) by (simp add: mult_strict_right_mono)
  also have "\<dots> = pow2 (53 + e)" by (simp add: pow2_add) (simp add: pow2_def)
  also have "\<dots> \<le> pow2 1024" using assms(5) by (simp add: pow2_le_iff)
  finally have b: "nearest a < pow2 1024" by (simp add: n)
  from fl_pos_Fin [OF apos b] n apos show "fl a = Fin a" and "fl (- a) = Fin (- a)" by simp_all
qed

lemma fl_of_int:
  assumes "0 < n" and "n < 2 ^ 53"
  shows "fl (of_int n) = Fin (of_int n)" and "fl (- of_int n) = Fin (- of_int n)"
  using fl_exact [of "of_int n" n 0] assms by (simp_all add: pow2_def)

lemma fadd_Fin: "fadd (Fin x) (Fin y) = (if x + y = 0 then Fin 0 else fl (x + y))"
  by (simp add: fadd_def is_inf_def val_def)

lemma fmul_Fin: "x \<noteq> 0 \<Longrightarrow> y \<noteq> 0 \<Longrightarrow> fmul (Fin x) (Fin y) = fl (x * y)"
  by (simp add: fmul_def is_inf_def is_zero_def val_def)

lemma fdiv_Fin: "x \<noteq> 0 \<Longrightarrow> y \<noteq> 0 \<Longrightarrow> fdiv (Fin x) (Fin y) = fl (x / y)"
  by (simp add: fdiv_def is_inf_def is_zero_def val_def)

lemma math_round_Fin:
  "math_round (Fin r) = (if r < 0 \<and> - (1 / 2) \<le> r then NegZero else Fin (of_int \<lfloor>r + 1 / 2\<rfloor>))"
  by (simp add: math_round_def)

lemma fl_tenth: "fl (1 / 10) = Fin (3602879701896397 / 36028797018963968)"
  by (rule fl_cert(1) [where e = "- 4" and f = 7205759403792793]) (simp_all add: pow2_def)

lemma fl_three_tenths: "fl (3 / 10) = Fin (5404319552844595 / 18014398509481984)"
  by (rule fl_cert(1) [where e = "- 2" and f = 5404319552844595]) (simp_all add: pow2_def)

lemma three_times_tenth:
  "fmul (Fin 3) (fl (1 / 10)) = Fin (1351079888211149 / 4503599627370496)"
proof -
  have "fl (10808639105689191 / 36028797018963968) = Fin (1351079888211149 / 4503599627370496)"
    by (rule fl_cert(1) [where e = "- 2" and f = 5404319552844595]) (simp_all add: pow2_def)
  then show ?thesis by (simp add: fl_tenth fmul_Fin)
qed

lemma round2_three_times_tenth:
  "round2 (fmul (Fin 3) (fl (1 / 10))) = fl (3 / 10)"
proof -
  have a: "fadd (Fin (1351079888211149 / 4503599627370496)) EPSILON = Fin (675539944105575 / 2251799813685248)"
  proof -
    have "fl (675539944105575 / 2251799813685248) = Fin (675539944105575 / 2251799813685248)"
      by (rule fl_cert(1) [where e = "- 2" and f = 5404319552844600]) (simp_all add: pow2_def)
    then show ?thesis by (simp add: EPSILON_def fadd_Fin pow2_def)
  qed
  have b: "fmul (Fin (675539944105575 / 2251799813685248)) (Fin 100) = Fin (1055531162664961 / 35184372088832)"
  proof -
    have "fl (16888498602639375 / 562949953421312) = Fin (1055531162664961 / 35184372088832)"
      by (rule fl_cert(1) [where e = 4 and f = 8444249301319687]) (simp_all add: pow2_def)
    then show ?thesis by (simp add: fmul_Fin)
  qed
  have c: "math_round (Fin (1055531162664961 / 35184372088832)) = Fin 30"
  proof -
    have "\<lfloor>(1055531162664961 / 35184372088832 :: rat) + 1 / 2\<rfloor> = 30" by linarith
    then show ?thesis by (simp add: math_round_Fin)
  qed
  have d: "fdiv (Fin 30) (Fin 100) = fl (3 / 10)" by (simp add: fdiv_Fin)
  show ?thesis by (simp add: round2_def three_times_tenth a b c d)
qed

lemma round2_minus_eighth:
  "round2 (Fin (- (1 / 8))) = Fin (- (1080863910568919 / 9007199254740992))"
proof -
  have a: "fadd (Fin (- (1 / 8))) EPSILON = Fin (- (562949953421311 / 4503599627370496))"
  proof -
    have "fl (- (562949953421311 / 4503599627370496)) = Fin (- (562949953421311 / 4503599627370496))"
      by (rule fl_cert(2) [where e = "- 4" and f = 9007199254740976]) (simp_all add: pow2_def)
    then show ?thesis by (simp add: EPSILON_def fadd_Fin pow2_def)
  qed
  have b: "fmul (Fin (- (562949953421311 / 4503599627370496))) (Fin 100) = Fin (- (1759218604441597 / 140737488355328))"
  proof -
    have "fl (- (14073748835532775 / 1125899906842624)) = Fin (- (1759218604441597 / 140737488355328))"
      by (rule fl_cert(2) [where e = 3 and f = 7036874417766387]) (simp_all add: pow2_def)
    then show ?thesis by (simp add: fmul_Fin)
  qed
  have c: "math_round (Fin (- (1759218604441597 / 140737488355328))) = Fin (- 12)"
  proof -
    have "\<lfloor>- (1759218604441597 / 140737488355328 :: rat) + 1 / 2\<rfloor> = - 12" by linarith
    then show ?thesis by (simp add: math_round_Fin)
  qed
  have d: "fdiv (Fin (- 12)) (Fin 100) = Fin (- (1080863910568919 / 9007199254740992))"
  proof -
    have "fl (- (3 / 25)) = Fin (- (1080863910568919 / 9007199254740992))"
      by (rule fl_cert(2) [where e = "- 4" and f = 8646911284551352]) (simp_all add: pow2_def)
    then show ?thesis by (simp add: fdiv_Fin)
  qed
  show ?thesis by (simp add: round2_def a b c d)
qed

lemma round2_steps:
  assumes "fadd (Fin x) EPSILON = Fin a" and "fmul (Fin a) (Fin 100) = Fin b"
    and "math_round (Fin b) = Fin k" and "fdiv (Fin k) (Fin 100) = r"
  shows "round2 (Fin x) = r"
  by (simp add: round2_def assms)

lemma math_round_of_int: "math_round (Fin (of_int n)) = Fin (of_int n)"
proof -
  have "\<lfloor>(of_int n :: rat) + 1 / 2\<rfloor> = n" by linarith
  moreover have "\<not> ((of_int n :: rat) < 0 \<and> - (1 / 2) \<le> (of_int n :: rat))"
  proof
    assume "(of_int n :: rat) < 0 \<and> - (1 / 2) \<le> (of_int n :: rat)"
    then have "n < 0" "(- 1 :: rat) < of_int n" by simp_all
    then have "n < 0" "- 1 < n" by (simp_all only: of_int_less_iff [where ?'a = rat, symmetric] of_int_minus of_int_1)
    then show False by simp
  qed
  ultimately show ?thesis by (simp only: math_round_Fin if_False)
qed

lemma round2_900: "round2 (Fin 900) = Fin 900"
proof (rule round2_steps)
  have "fl (900 + pow2 (- 52)) = Fin 900"
    by (rule fl_cert(1) [where e = 9 and f = 7916483719987200]) (simp_all add: pow2_def)
  then show "fadd (Fin 900) EPSILON = Fin 900" by (simp add: EPSILON_def fadd_Fin pow2_def)
  show "fmul (Fin 900) (Fin 100) = Fin 90000"
    using fl_of_int(1) [of 90000] by (simp add: fmul_Fin)
  show "math_round (Fin 90000) = Fin 90000" using math_round_of_int [of 90000] by simp
  show "fdiv (Fin 90000) (Fin 100) = Fin 900"
    using fl_of_int(1) [of 900] by (simp add: fdiv_Fin)
qed

lemma round2_90: "round2 (Fin 90) = Fin 90"
proof (rule round2_steps)
  have "fl (90 + pow2 (- 52)) = Fin 90"
    by (rule fl_cert(1) [where e = 6 and f = 6333186975989760]) (simp_all add: pow2_def)
  then show "fadd (Fin 90) EPSILON = Fin 90" by (simp add: EPSILON_def fadd_Fin pow2_def)
  show "fmul (Fin 90) (Fin 100) = Fin 9000"
    using fl_of_int(1) [of 9000] by (simp add: fmul_Fin)
  show "math_round (Fin 9000) = Fin 9000" using math_round_of_int [of 9000] by simp
  show "fdiv (Fin 9000) (Fin 100) = Fin 90"
    using fl_of_int(1) [of 90] by (simp add: fdiv_Fin)
qed

lemma round2_990: "round2 (Fin 990) = Fin 990"
proof (rule round2_steps)
  have "fl (990 + pow2 (- 52)) = Fin 990"
    by (rule fl_cert(1) [where e = 9 and f = 8708132091985920]) (simp_all add: pow2_def)
  then show "fadd (Fin 990) EPSILON = Fin 990" by (simp add: EPSILON_def fadd_Fin pow2_def)
  show "fmul (Fin 990) (Fin 100) = Fin 99000"
    using fl_of_int(1) [of 99000] by (simp add: fmul_Fin)
  show "math_round (Fin 99000) = Fin 99000" using math_round_of_int [of 99000] by simp
  show "fdiv (Fin 99000) (Fin 100) = Fin 990"
    using fl_of_int(1) [of 990] by (simp add: fdiv_Fin)
qed

lemma round2_1800: "round2 (Fin 1800) = Fin 1800"
proof (rule round2_steps)
  have "fl (1800 + pow2 (- 52)) = Fin 1800"
    by (rule fl_cert(1) [where e = 10 and f = 7916483719987200]) (simp_all add: pow2_def)
  then show "fadd (Fin 1800) EPSILON = Fin 1800" by (simp add: EPSILON_def fadd_Fin pow2_def)
  show "fmul (Fin 1800) (Fin 100) = Fin 180000"
    using fl_of_int(1) [of 180000] by (simp add: fmul_Fin)
  show "math_round (Fin 180000) = Fin 180000" using math_round_of_int [of 180000] by simp
  show "fdiv (Fin 180000) (Fin 100) = Fin 1800"
    using fl_of_int(1) [of 1800] by (simp add: fdiv_Fin)
qed

lemma round2_180: "round2 (Fin 180) = Fin 180"
proof (rule round2_steps)
  have "fl (180 + pow2 (- 52)) = Fin 180"
    by (rule fl_cert(1) [where e = 7 and f = 6333186975989760]) (simp_all add: pow2_def)
  then show "fadd (Fin 180) EPSILON = Fin 180" by (simp add: EPSILON_def fadd_Fin pow2_def)
  show "fmul (Fin 180) (Fin 100) = Fin 18000"
    using fl_of_int(1) [of 18000] by (simp add: fmul_Fin)
  show "math_round (Fin 18000) = Fin 18000" using math_round_of_int [of 18000] by simp
  show "fdiv (Fin 18000) (Fin 100) = Fin 180"
    using fl_of_int(1) [of 180] by (simp add: fdiv_Fin)
qed

lemma round2_1980: "round2 (Fin 1980) = Fin 1980"
proof (rule round2_steps)
  have "fl (1980 + pow2 (- 52)) = Fin 1980"
    by (rule fl_cert(1) [where e = 10 and f = 8708132091985920]) (simp_all add: pow2_def)
  then show "fadd (Fin 1980) EPSILON = Fin 1980" by (simp add: EPSILON_def fadd_Fin pow2_def)
  show "fmul (Fin 1980) (Fin 100) = Fin 198000"
    using fl_of_int(1) [of 198000] by (simp add: fmul_Fin)
  show "math_round (Fin 198000) = Fin 198000" using math_round_of_int [of 198000] by simp
  show "fdiv (Fin 198000) (Fin 100) = Fin 1980"
    using fl_of_int(1) [of 1980] by (simp add: fdiv_Fin)
qed


lemma ilog2_mono:
  assumes "0 < a" and "a \<le> b"
  shows "ilog2 a \<le> ilog2 b"
proof -
  have bpos: "0 < b" using assms by simp
  from ilog2_bounds [OF assms(1)] ilog2_bounds [OF bpos] assms(2)
  have "pow2 (ilog2 a) < pow2 (ilog2 b + 1)" by linarith
  then show ?thesis by (simp add: pow2_less_iff)
qed

lemma nearest_nonneg: "0 \<le> a \<Longrightarrow> 0 \<le> nearest a"
proof -
  assume a: "0 \<le> a"
  then have "0 \<le> a / quantum a" using quantum_pos [of a] by simp
  then have "round_half_even 0 \<le> round_half_even (a / quantum a)" by (rule round_half_even_mono)
  moreover have "round_half_even 0 = 0" using round_half_even_of_int [of 0] by simp
  ultimately have "(0::rat) \<le> of_int (round_half_even (a / quantum a))" by simp
  then show ?thesis using quantum_pos [of a] by (simp add: nearest_def)
qed

lemma nearest_upper:
  assumes "0 < a"
  shows "nearest a \<le> pow2 (max (ilog2 a) (- 1022) + 1)"
proof -
  define e where "e = max (ilog2 a) (- 1022)"
  define q where "q = pow2 (e - 52)"
  have q: "quantum a = q" by (simp add: q_def e_def quantum_def)
  have qpos: "0 < q" by (simp add: q_def pow2_pos)
  have "pow2 (e + 1) = pow2 53 * q" by (simp add: q_def add.commute flip: pow2_add)
  then have hi: "pow2 (e + 1) = of_int (2 ^ 53) * q" by (simp add: pow2_def)
  have "a < pow2 (ilog2 a + 1)" using ilog2_bounds [OF assms] by simp
  also have "\<dots> \<le> pow2 (e + 1)" by (simp add: pow2_le_iff e_def)
  finally have "a / q \<le> of_int (2 ^ 53)" using qpos by (simp add: hi pos_divide_le_eq)
  then have "round_half_even (a / q) \<le> round_half_even (of_int (2 ^ 53))"
    by (rule round_half_even_mono)
  then have "round_half_even (a / q) \<le> 2 ^ 53" by (simp only: round_half_even_of_int)
  then have "(of_int (round_half_even (a / q)) :: rat) \<le> of_int (2 ^ 53)"
    by (simp only: of_int_le_iff)
  then have "of_int (round_half_even (a / q)) * q \<le> of_int (2 ^ 53) * q"
    using qpos by (rule mult_right_mono [OF _ less_imp_le])
  then show ?thesis by (simp only: nearest_def q hi e_def [symmetric])
qed

lemma nearest_mono:
  assumes "0 < a" and "a \<le> b"
  shows "nearest a \<le> nearest b"
proof -
  have bpos: "0 < b" using assms by simp
  define ea where "ea = max (ilog2 a) (- 1022)"
  define eb where "eb = max (ilog2 b) (- 1022)"
  have le: "ea \<le> eb" using ilog2_mono [OF assms] by (simp add: ea_def eb_def)
  show ?thesis
  proof (cases "ea = eb")
    case True
    then have q: "quantum a = quantum b" by (simp add: quantum_def ea_def eb_def)
    have "a / quantum b \<le> b / quantum b"
      using assms(2) quantum_pos [of b] by (simp add: divide_right_mono)
    then have "round_half_even (a / quantum b) \<le> round_half_even (b / quantum b)"
      by (rule round_half_even_mono)
    then have "(of_int (round_half_even (a / quantum b)) :: rat) \<le> of_int (round_half_even (b / quantum b))"
      by (simp only: of_int_le_iff)
    then show ?thesis
      unfolding nearest_def q using quantum_pos [of b] by (rule mult_right_mono [OF _ less_imp_le])
  next
    case False
    with le have lt: "ea < eb" by simp
    then have eb: "eb = ilog2 b" and eb1: "- 1022 \<le> ilog2 b"
      unfolding ea_def eb_def by linarith+
    have "nearest a \<le> pow2 (ea + 1)" using nearest_upper [OF assms(1)] by (simp add: ea_def)
    also have "\<dots> \<le> pow2 eb" using lt by (simp add: pow2_le_iff)
    also have "\<dots> \<le> nearest b"
      using nearest_range [of "ilog2 b" b] ilog2_bounds [OF bpos] eb1 by (simp add: eb)
    finally show ?thesis .
  qed
qed

lemma snearest_mono:
  assumes "r \<le> t"
  shows "snearest r \<le> snearest t"
proof -
  consider "0 < r" | "r = 0" | "r < 0" "t < 0" | "r < 0" "0 \<le> t" by linarith
  then show ?thesis
  proof cases
    case 1
    then show ?thesis using assms nearest_mono [of r t] by (simp add: snearest_def)
  next
    case 2
    then show ?thesis using assms nearest_nonneg [of t] by (simp add: snearest_def)
  next
    case 3
    then show ?thesis using assms nearest_mono [of "- t" "- r"] by (simp add: snearest_def)
  next
    case 4
    then show ?thesis
      using nearest_nonneg [of t] nearest_nonneg [of "- r"] by (auto simp: snearest_def)
  qed
qed

lemma quantum_le:
  assumes "0 < a"
  shows "quantum a \<le> pow2 (- 52) * a + pow2 (- 1074)"
proof (cases "- 1022 \<le> ilog2 a")
  case True
  then have "quantum a = pow2 (- 52) * pow2 (ilog2 a)"
    by (simp add: quantum_def max_def flip: pow2_add)
  also have "\<dots> \<le> pow2 (- 52) * a"
    using ilog2_bounds [OF assms] pow2_pos [of "- 52"] by (simp add: mult_left_mono)
  finally show ?thesis using pow2_pos [of "- 1074"] by linarith
next
  case False
  then have "quantum a = pow2 (- 1074)" by (simp add: quantum_def max_def)
  then show ?thesis using assms pow2_pos [of "- 52"] by simp
qed

lemma snearest_err: "\<bar>snearest r - r\<bar> \<le> pow2 (- 53) * \<bar>r\<bar> + pow2 (- 1075)"
proof -
  have h: "pow2 (- 52) / 2 = pow2 (- 53)" "pow2 (- 1074) / 2 = pow2 (- 1075)"
    using pow2_add [of "- 53" 1] pow2_add [of "- 1075" 1] by (simp_all add: pow2_def)
  have p: "\<bar>nearest a - a\<bar> \<le> pow2 (- 53) * a + pow2 (- 1075)" if "0 < a" for a
  proof -
    have "\<bar>nearest a - a\<bar> \<le> quantum a / 2" by (rule nearest_err)
    also have "\<dots> \<le> (pow2 (- 52) * a + pow2 (- 1074)) / 2"
      using quantum_le [OF that] by simp
    also have "\<dots> = pow2 (- 53) * a + pow2 (- 1075)"
      by (simp add: add_divide_distrib h flip: times_divide_eq_left)
    finally show ?thesis .
  qed
  consider "r = 0" | "0 < r" | "r < 0" by linarith
  then show ?thesis
  proof cases
    case 1
    then show ?thesis using pow2_pos [of "- 1075"] by (simp add: snearest_def)
  next
    case 2
    then show ?thesis using p [of r] by (simp add: snearest_def)
  next
    case 3
    then have "\<bar>nearest (- r) - (- r)\<bar> \<le> pow2 (- 53) * (- r) + pow2 (- 1075)" using p [of "- r"] by simp
    moreover have "\<bar>snearest r - r\<bar> = \<bar>nearest (- r) - (- r)\<bar>" using 3 by (simp add: snearest_def)
    ultimately show ?thesis using 3 by simp
  qed
qed

lemma val_fl:
  assumes "\<bar>r\<bar> \<le> pow2 1022"
  shows "is_fin (fl r) \<and> val (fl r) = snearest r"
proof (cases "r = 0")
  case True
  then show ?thesis by (simp add: fl_def is_fin_def val_def snearest_def)
next
  case False
  define a where "a = \<bar>r\<bar>"
  have apos: "0 < a" using False by (simp add: a_def)
  have "pow2 (ilog2 a) \<le> a" using ilog2_bounds [OF apos] by simp
  also have "a < pow2 1023" using assms pow2_strict_mono [of 1022 1023] by (simp add: a_def)
  finally have "ilog2 a < 1023" by (simp add: pow2_less_iff)
  then have "max (ilog2 a) (- 1022) + 1 \<le> 1023" by simp
  then have "pow2 (max (ilog2 a) (- 1022) + 1) \<le> pow2 1023" by (simp only: pow2_le_iff)
  with nearest_upper [OF apos] have "nearest a \<le> pow2 1023" by linarith
  then have b: "\<not> pow2 1024 \<le> nearest a" using pow2_strict_mono [of 1023 1024] by simp
  have n: "0 \<le> nearest a" using apos by (simp add: nearest_nonneg)
  show ?thesis
    using b n False unfolding fl_def Let_def a_def [symmetric]
    by (auto simp: is_fin_def val_def snearest_def a_def abs_if)
qed

lemma snearest_double:
  assumes "is_double (Fin x)"
  shows "snearest x = x"
proof (cases "x = 0")
  case True
  then show ?thesis by (simp add: snearest_def)
next
  case False
  from assms have f: "fl x = Fin x" by (simp add: is_double_def)
  show ?thesis
  proof (cases "0 < x")
    case True
    with f False show ?thesis
      by (auto simp: fl_def Let_def snearest_def split: if_splits)
  next
    case neg: False
    with f False show ?thesis
      by (auto simp: fl_def Let_def snearest_def abs_if split: if_splits)
  qed
qed

lemma is_fin_cases: "is_fin A \<Longrightarrow> A = Fin (val A) \<or> (A = NegZero \<and> val A = 0)"
  by (cases A) (simp_all add: is_fin_def val_def)

lemma fadd_fin:
  assumes "is_fin A" and "is_fin B" and "\<bar>val A + val B\<bar> \<le> pow2 1022"
  shows "is_fin (fadd A B) \<and> val (fadd A B) = snearest (val A + val B)"
proof -
  have nn: "A \<noteq> NaN" "B \<noteq> NaN" "\<not> is_inf A" "\<not> is_inf B"
    using assms(1,2) by (auto simp: is_fin_def is_inf_def split: jsnum.splits)
  show ?thesis
  proof (cases "A = NegZero \<and> B = NegZero")
    case True
    then show ?thesis by (simp add: fadd_def is_inf_def is_fin_def val_def snearest_def)
  next
    case False
    show ?thesis
    proof (cases "val A + val B = 0")
      case True
      with False nn show ?thesis by (simp add: fadd_def is_fin_def snearest_def) (simp add: val_def)
    next
      case nz: False
      have "fadd A B = fl (val A + val B)" using False nn nz by (auto simp: fadd_def)
      with val_fl [OF assms(3)] show ?thesis by simp
    qed
  qed
qed

lemma fmul_fin:
  assumes "is_fin A" and "is_fin B" and "\<bar>val A * val B\<bar> \<le> pow2 1022"
  shows "is_fin (fmul A B) \<and> val (fmul A B) = snearest (val A * val B)"
proof -
  have nn: "A \<noteq> NaN" "B \<noteq> NaN" "\<not> is_inf A" "\<not> is_inf B"
    using assms(1,2) by (auto simp: is_fin_def is_inf_def split: jsnum.splits)
  have z: "is_zero A \<longleftrightarrow> val A = 0" "is_zero B \<longleftrightarrow> val B = 0"
    using assms(1,2) by (auto simp: is_fin_def is_zero_def val_def split: jsnum.splits)
  show ?thesis
  proof (cases "val A = 0 \<or> val B = 0")
    case True
    then have "val A * val B = 0" by auto
    moreover from True nn z have "fmul A B = signed_zero (is_neg A \<noteq> is_neg B)" by (simp add: fmul_def)
    ultimately show ?thesis by (simp add: signed_zero_def is_fin_def val_def snearest_def)
  next
    case False
    with nn z have "fmul A B = fl (val A * val B)" by (simp add: fmul_def)
    with val_fl [OF assms(3)] show ?thesis by simp
  qed
qed

lemma scaled_props:
  assumes "\<bar>x\<bar> \<le> pow2 1000"
  shows "is_fin (fmul (fadd (Fin x) EPSILON) (Fin 100))"
    and "scaled x = snearest (100 * snearest (x + pow2 (- 52)))"
proof -
  define P where "P = pow2 1000"
  define s where "s = x + pow2 (- 52)"
  have P1: "1 \<le> P" using pow2_mono [of 0 1000] by (simp add: P_def pow2_def)
  have P22: "pow2 1022 = 4194304 * P"
    using pow2_add [of 22 1000] by (simp add: P_def) (simp add: pow2_def)
  have eps: "pow2 (- 52) = 1 / 4503599627370496" by (simp add: pow2_def)
  have u: "pow2 (- 53) = 1 / 9007199254740992" by (simp add: pow2_def)
  have t: "pow2 (- 1075) \<le> 1" using pow2_mono [of "- 1075" 0] by (simp add: pow2_def)
  have xs: "\<bar>s\<bar> \<le> P + 1" using assms unfolding s_def eps P_def by linarith
  have fx: "is_fin (Fin x)" "is_fin EPSILON" "val (Fin x) = x" "val EPSILON = pow2 (- 52)"
    by (simp_all add: is_fin_def EPSILON_def val_def)
  have "\<bar>val (Fin x) + val EPSILON\<bar> \<le> pow2 1022"
    using xs P1 by (simp add: fx s_def [symmetric] P22)
  from fadd_fin [OF fx(1,2) this]
  have A: "is_fin (fadd (Fin x) EPSILON)" and vA: "val (fadd (Fin x) EPSILON) = snearest s"
    by (simp_all add: fx s_def)
  have e1: "\<bar>snearest s - s\<bar> \<le> pow2 (- 53) * \<bar>s\<bar> + pow2 (- 1075)" by (rule snearest_err)
  have a1: "\<bar>snearest s\<bar> \<le> 2 * P + 3" using e1 xs t unfolding u by linarith
  have f100: "is_fin (Fin 100)" "val (Fin 100) = 100" by (simp_all add: is_fin_def val_def)
  have "\<bar>val (fadd (Fin x) EPSILON) * val (Fin 100)\<bar> \<le> pow2 1022"
    using a1 P1 unfolding vA f100 P22 by (simp add: abs_mult)
  from fmul_fin [OF A f100(1) this]
  show "is_fin (fmul (fadd (Fin x) EPSILON) (Fin 100))"
    and "scaled x = snearest (100 * snearest (x + pow2 (- 52)))"
    by (simp_all add: scaled_def vA f100 s_def mult.commute)
qed

lemma scaled_arith:
  fixes X S Av D1 D2 G t :: rat
  assumes "S \<le> X + 1 / 4503599627370496" and "Av \<le> S + D1"
    and "D1 \<le> S / 9007199254740992 + t" and "D2 \<le> 100 * Av / 9007199254740992 + t"
    and "G \<le> D2 + 100 * D1 + 100 / 4503599627370496"
    and "t \<le> 1 / 1267650600228229401496703205376" and "0 \<le> X"
  shows "35184372088832 * G \<le> 1 + X"
  using assms by linarith

lemma scaled_err:
  assumes "\<bar>x\<bar> \<le> pow2 1000"
  shows "\<bar>scaled x - 100 * x\<bar> \<le> pow2 (- 45) * (1 + \<bar>x\<bar>)"
proof -
  define s where "s = x + 1 / 4503599627370496"
  define a where "a = snearest s"
  define y where "y = snearest (100 * a)"
  have eps: "pow2 (- 52) = 1 / 4503599627370496" by (simp add: pow2_def)
  have u: "pow2 (- 53) = 1 / 9007199254740992" by (simp add: pow2_def)
  have w: "pow2 (- 45) = 1 / 35184372088832" by (simp add: pow2_def)
  have t: "pow2 (- 1075) \<le> 1 / 1267650600228229401496703205376"
    using pow2_mono [of "- 1075" "- 100"] by (simp add: pow2_def)
  have e1: "\<bar>a - s\<bar> \<le> \<bar>s\<bar> / 9007199254740992 + pow2 (- 1075)"
    using snearest_err [of s] by (simp add: a_def u)
  have e2: "\<bar>y - 100 * a\<bar> \<le> 100 * \<bar>a\<bar> / 9007199254740992 + pow2 (- 1075)"
    using snearest_err [of "100 * a"] by (simp add: y_def u abs_mult)
  have sc: "scaled x = y"
    using scaled_props(2) [OF assms] by (simp add: y_def a_def s_def eps)
  have c1: "\<bar>s\<bar> \<le> \<bar>x\<bar> + 1 / 4503599627370496" unfolding s_def by linarith
  have c2: "\<bar>a\<bar> \<le> \<bar>s\<bar> + \<bar>a - s\<bar>" by linarith
  define p where "p = y - 100 * a"
  define d where "d = a - s"
  have "y - 100 * x = p + 100 * d + 100 / 4503599627370496"
    by (simp add: s_def p_def d_def)
  then have "\<bar>y - 100 * x\<bar> \<le> \<bar>p\<bar> + 100 * \<bar>d\<bar> + 100 / 4503599627370496"
    by linarith
  then have c3: "\<bar>y - 100 * x\<bar> \<le> \<bar>y - 100 * a\<bar> + 100 * \<bar>a - s\<bar> + 100 / 4503599627370496"
    by (simp only: p_def d_def)
  have "35184372088832 * \<bar>y - 100 * x\<bar> \<le> 1 + \<bar>x\<bar>"
    using c1 c2 e1 e2 c3 t by (rule scaled_arith) simp
  then show ?thesis by (simp add: sc w)
qed

lemma snearest_exact:
  assumes "r = of_int k * pow2 e" and "\<bar>k\<bar> < 2 ^ 53" and "- 1074 \<le> e"
  shows "snearest r = r"
proof -
  consider "k = 0" | "0 < k" | "k < 0" by linarith
  then show ?thesis
  proof cases
    case 1
    then show ?thesis by (simp add: assms(1) snearest_def)
  next
    case 2
    then have "0 < r" using pow2_pos [of e] by (simp add: assms(1))
    moreover have "nearest r = r" using assms 2 by (intro nearest_exact [of r k e]) simp_all
    ultimately show ?thesis by (simp add: snearest_def)
  next
    case 3
    then have neg: "r < 0" using pow2_pos [of e] by (simp add: assms(1) mult_neg_pos)
    have "nearest (- r) = - r" using assms 3 by (intro nearest_exact [of "- r" "- k" e]) simp_all
    with neg show ?thesis by (simp add: snearest_def)
  qed
qed

lemma round2_cents:
  assumes "\<bar>x\<bar> \<le> pow2 1000"
  shows "round2 (Fin x) = fl (of_int (cents x) / 100) \<or> (cents x = 0 \<and> round2 (Fin x) = NegZero)"
proof -
  define Y where "Y = fmul (fadd (Fin x) EPSILON) (Fin 100)"
  have fin: "is_fin Y" using scaled_props(1) [OF assms] by (simp add: Y_def)
  have sc: "scaled x = val Y" by (simp add: scaled_def Y_def)
  have r2: "round2 (Fin x) = fdiv (math_round Y) (Fin 100)" by (simp add: round2_def Y_def)
  from is_fin_cases [OF fin] show ?thesis
  proof
    assume Y: "Y = Fin (val Y)"
    show ?thesis
    proof (cases "val Y < 0 \<and> - (1 / 2) \<le> val Y")
      case True
      then have "\<lfloor>val Y + 1 / 2\<rfloor> = 0" by linarith
      then have c: "cents x = 0" by (simp add: cents_def sc)
      have "math_round Y = NegZero" using True by (subst Y) (simp add: math_round_Fin)
      then have "round2 (Fin x) = NegZero"
        by (simp add: r2 fdiv_def is_inf_def is_zero_def is_neg_def signed_zero_def)
      with c show ?thesis by simp
    next
      case False
      then have m: "math_round Y = Fin (of_int (cents x))"
        by (subst Y) (simp add: math_round_Fin cents_def sc)
      show ?thesis
      proof (cases "cents x = 0")
        case True
        then show ?thesis
          by (simp add: r2 m fdiv_def is_inf_def is_zero_def is_neg_def signed_zero_def fl_def)
      next
        case nz: False
        then show ?thesis by (simp add: r2 m fdiv_Fin)
      qed
    qed
  next
    assume Y: "Y = NegZero \<and> val Y = 0"
    from Y have v0: "scaled x = 0" unfolding sc by blast
    have "\<lfloor>(0::rat) + 1 / 2\<rfloor> = 0" by linarith
    then have c: "cents x = 0" by (simp only: cents_def v0)
    from Y have "round2 (Fin x) = NegZero"
      by (simp add: r2 math_round_def fdiv_def is_inf_def is_zero_def is_neg_def signed_zero_def)
    with c show ?thesis by simp
  qed
qed

lemma cents_near:
  assumes "\<bar>x\<bar> \<le> pow2 1000"
  shows "\<bar>of_int (cents x) - 100 * x\<bar> \<le> 1 / 2 + pow2 (- 45) * (1 + \<bar>x\<bar>)"
proof -
  define y where "y = scaled x"
  define k :: rat where "k = of_int \<lfloor>y + 1 / 2\<rfloor>"
  have "k \<le> y + 1 / 2" "y + 1 / 2 < k + 1" unfolding k_def by linarith+
  then have "\<bar>k - y\<bar> \<le> 1 / 2" by linarith
  then have "\<bar>of_int (cents x) - y\<bar> \<le> 1 / 2" by (simp only: cents_def y_def k_def)
  moreover have "\<bar>y - 100 * x\<bar> \<le> pow2 (- 45) * (1 + \<bar>x\<bar>)"
    unfolding y_def using assms by (rule scaled_err)
  ultimately show ?thesis by linarith
qed

lemma cents_tie:
  assumes d: "is_double (Fin x)" and b: "\<bar>x\<bar> \<le> pow2 40" and t: "100 * x = of_int j + 1 / 2"
  shows "cents x = j + 1"
proof -
  have p40: "pow2 40 = 1099511627776" by (simp add: pow2_def)
  have w: "pow2 (- 45) = 1 / 35184372088832" by (simp add: pow2_def)
  have big: "\<bar>x\<bar> \<le> pow2 1000" using b pow2_mono [of 40 1000] by linarith
  have jb: "\<bar>(of_int j :: rat) + 1 / 2\<bar> \<le> 109951162777600"
    using b unfolding p40 t [symmetric] by (simp add: abs_mult)
  then have "\<bar>(of_int (2 * j + 1) :: rat)\<bar> \<le> of_int 219902325555200" by simp
  then have "\<bar>2 * j + 1\<bar> \<le> 219902325555200" by (simp only: of_int_abs [symmetric] of_int_le_iff)
  then have k: "\<bar>2 * j + 1\<bar> < 2 ^ 53" by simp
  have "100 * x = of_int (2 * j + 1) * pow2 (- 1)" by (simp add: t pow2_def)
  from snearest_exact [OF this k] have ex: "snearest (100 * x) = 100 * x" by linarith
  have "x \<le> x + pow2 (- 52)" using pow2_pos [of "- 52"] by simp
  then have "snearest x \<le> snearest (x + pow2 (- 52))" by (rule snearest_mono)
  then have "x \<le> snearest (x + pow2 (- 52))" by (simp add: snearest_double [OF d])
  then have "100 * x \<le> 100 * snearest (x + pow2 (- 52))" by simp
  then have "snearest (100 * x) \<le> snearest (100 * snearest (x + pow2 (- 52)))"
    by (rule snearest_mono)
  then have "100 * x \<le> scaled x"
    by (simp only: ex scaled_props(2) [OF big])
  then have lo: "of_int j + 1 / 2 \<le> scaled x" by (simp only: t)
  have "\<bar>scaled x - 100 * x\<bar> \<le> pow2 (- 45) * (1 + \<bar>x\<bar>)" using big by (rule scaled_err)
  then have g0: "35184372088832 * \<bar>scaled x - 100 * x\<bar> \<le> 1 + \<bar>x\<bar>" by (simp add: w)
  define g where "g = \<bar>scaled x - 100 * x\<bar>"
  define ax where "ax = \<bar>x\<bar>"
  have "35184372088832 * g \<le> 1 + ax" "ax \<le> 1099511627776"
    using g0 b unfolding p40 by (simp_all only: g_def ax_def)
  then have "g < 1" by linarith
  then have "scaled x - (of_int j + 1 / 2) < 1" unfolding g_def t by linarith
  then have hi: "scaled x < of_int j + 3 / 2" by linarith
  from lo hi have "\<lfloor>scaled x + 1 / 2\<rfloor> = j + 1" by (intro floor_unique) simp_all
  then show ?thesis by (simp add: cents_def)
qed

lemma double_minus_eighth: "is_double (Fin (- (1 / 8)))"
  using fl_exact(2) [of "1 / 8" 1 "- 3"] by (simp add: is_double_def pow2_def)

lemma fl_minus_12: "fl (- (3 / 25)) = Fin (- (1080863910568919 / 9007199254740992))"
  by (rule fl_cert(2) [where e = "- 4" and f = 8646911284551352]) (simp_all add: pow2_def)

lemma fl_minus_13: "fl (- (13 / 100)) = Fin (- (1170935903116329 / 9007199254740992))"
  by (rule fl_cert(2) [where e = "- 3" and f = 4683743612465315]) (simp_all add: pow2_def)


section \<open>Properties of round2\<close>

text \<open>
  Claim C5, as amended. For a number \<open>x\<close> of magnitude at most \<open>2^1000\<close>, \<open>round2(x)\<close> is
  the binary64 value nearest to \<open>k / 100\<close> (or \<open>-0\<close> when \<open>k = 0\<close>), where the integer \<open>k\<close>
  is within \<open>1/2 + 2^-45 * (1 + |x|)\<close> of \<open>100 * x\<close>: the multiple of 0.01 nearest to \<open>x\<close>, up
  to that bias. When a binary64 \<open>x\<close> of magnitude at most \<open>2^40\<close> lies exactly halfway between
  two multiples of 0.01, \<open>k\<close> is the upper one: the tie goes towards +\<infinity>, which is away
  from zero for a positive \<open>x\<close> and towards zero for a negative one. \<open>round2(3 * 0.1)\<close> is the
  binary64 value of 0.3.
\<close>

theorem round2_spec:
  assumes "\<bar>x\<bar> \<le> pow2 1000"
  shows "(round2 (Fin x) = fl (of_int (cents x) / 100) \<or> (cents x = 0 \<and> round2 (Fin x) = NegZero))
    \<and> \<bar>of_int (cents x) - 100 * x\<bar> \<le> 1 / 2 + pow2 (- 45) * (1 + \<bar>x\<bar>)
    \<and> (\<forall>j. is_double (Fin x) \<and> \<bar>x\<bar> \<le> pow2 40 \<and> 100 * x = of_int j + 1 / 2 \<longrightarrow> cents x = j + 1)
    \<and> round2 (fmul (Fin 3) (fl (1 / 10))) = fl (3 / 10)"
  using round2_cents [OF assms] cents_near [OF assms] cents_tie round2_three_times_tenth
  by blast

theorem round2_spec_witness:
  "cents (- (1 / 8)) = - 12 \<and> round2 (Fin (- (1 / 8))) = fl (- (12 / 100))"
proof -
  have r: "\<bar>- (1 / 8 :: rat)\<bar> \<le> pow2 1000" using pow2_mono [of 0 1000] by (simp add: pow2_def)
  have r40: "\<bar>- (1 / 8 :: rat)\<bar> \<le> pow2 40" by (simp add: pow2_def)
  have tie: "100 * (- (1 / 8 :: rat)) = of_int (- 13) + 1 / 2" by simp
  from round2_spec [OF r] double_minus_eighth r40 tie
  have c: "cents (- (1 / 8)) = - 13 + 1" by blast
  from round2_spec [OF r]
  have "round2 (Fin (- (1 / 8))) = fl (of_int (cents (- (1 / 8))) / 100)
      \<or> (cents (- (1 / 8)) = 0 \<and> round2 (Fin (- (1 / 8))) = NegZero)" by blast
  with c show ?thesis by simp
qed

text \<open>
  Claim C5 as stated fails at \<open>x = -0.125\<close>, a binary64 value exactly halfway between -0.13
  and -0.12: \<open>round2\<close> returns -0.12, the multiple nearer to zero, not -0.13.
\<close>

theorem round2_counterexample:
  "is_double (Fin (- (1 / 8)))
   \<and> \<bar>- (1 / 8) - (- (12 / 100) :: rat)\<bar> = \<bar>- (1 / 8) - (- (13 / 100))\<bar>
   \<and> round2 (Fin (- (1 / 8))) = fl (- (12 / 100))
   \<and> fl (- (12 / 100)) \<noteq> fl (- (13 / 100))"
  by (simp add: double_minus_eighth round2_minus_eighth fl_minus_12 fl_minus_13)

section \<open>Properties of the edits and of the totals\<close>

text \<open>
  Claim C10. \<open>updateItem(id, patch)\<close> keeps the number and the order of the items; the item
  at each position is the old one, with the fields present in the patch replaced when its
  id is the given one, and unchanged otherwise; every other field of the invoice is
  unchanged.
\<close>

theorem updateItem_frame:
  "length (items (updateItem i p prev)) = length (items prev)
   \<and> (\<forall>k < length (items prev).
         items (updateItem i p prev) ! k =
           (if id' (items prev ! k) = i then spread_patch (items prev ! k) p else items prev ! k))
   \<and> (\<forall>it. id' (spread_patch it p) = (case p_id p of Some v \<Rightarrow> v | None \<Rightarrow> id' it)
         \<and> description (spread_patch it p) =
             (case p_description p of Some v \<Rightarrow> v | None \<Rightarrow> description it)
         \<and> quantity (spread_patch it p) = (case p_quantity p of Some v \<Rightarrow> v | None \<Rightarrow> quantity it)
         \<and> unitPrice (spread_patch it p) =
             (case p_unitPrice p of Some v \<Rightarrow> v | None \<Rightarrow> unitPrice it))
   \<and> same_header (updateItem i p prev) prev"
  by (simp add: updateItem_def spread_patch_def same_header_def)

theorem updateItem_frame_witness:
  "items (updateItem (js ''b'')
      \<lparr>p_id = None, p_description = None, p_quantity = Some (Fin 3), p_unitPrice = None\<rparr>
      (invoice_of_items [item_a, item_b]))
   = [item_a, item_b\<lparr>quantity := Fin 3\<rparr>]"
proof -
  let ?p = "\<lparr>p_id = None, p_description = None, p_quantity = Some (Fin 3), p_unitPrice = None\<rparr>"
  let ?iv = "invoice_of_items [item_a, item_b]"
  have len: "length (items ?iv) = 2" by (simp add: invoice_of_items_def)
  from updateItem_frame [of "js ''b''" ?p ?iv]
  have l: "length (items (updateItem (js ''b'') ?p ?iv)) = 2"
    and k: "\<forall>k<2. items (updateItem (js ''b'') ?p ?iv) ! k =
           (if id' (items ?iv ! k) = js ''b'' then spread_patch (items ?iv ! k) ?p else items ?iv ! k)"
    using len by simp_all
  from k have k0: "items (updateItem (js ''b'') ?p ?iv) ! 0 = item_a"
    by (simp add: invoice_of_items_def item_a_def js_def)
  from k have k1: "items (updateItem (js ''b'') ?p ?iv) ! 1 = item_b\<lparr>quantity := Fin 3\<rparr>"
    by (simp add: invoice_of_items_def item_b_def js_def spread_patch_def)
  show ?thesis
    using l k0 k1 by (simp add: list_eq_iff_nth_eq numeral_2_eq_2 less_Suc_eq)
qed

text \<open>
  Claim C9 at an invoice of two items that carry the same id (ids are kept as they come
  from the input, so a share link can carry them): the list has more than one item, so the
  guard \<open>length <= 1\<close> lets the filter run, \<open>removeItem\<close> of that id removes both items, and
  the list, which was not empty, is empty.
\<close>

theorem removeItem_nonempty_failing:
  "items (invoice_of_items [item_a, item_a\<lparr>description := js ''Copy''\<rparr>]) \<noteq> []
   \<and> items (removeItem (js ''a'') (invoice_of_items [item_a, item_a\<lparr>description := js ''Copy''\<rparr>])) = []"
  by (simp add: removeItem_def invoice_of_items_def item_a_def)

lemma num_or_zero_nan_as_zero: "same_but_zero_sign (num_or_zero x) (nan_as_zero x)"
  by (simp add: same_but_zero_sign_def num_or_zero_def nan_as_zero_def is_zero_def)

lemma is_zero_signed_zero: "is_zero (signed_zero s)"
  by (simp add: is_zero_def signed_zero_def)

lemma zero_sign_cases:
  assumes "same_but_zero_sign a a'"
  shows "(a = NaN \<longleftrightarrow> a' = NaN) \<and> (is_inf a \<longleftrightarrow> is_inf a') \<and> (is_zero a \<longleftrightarrow> is_zero a')
    \<and> (\<not> is_zero a \<longrightarrow> a = a') \<and> val a = val a'"
  using assms by (auto simp: same_but_zero_sign_def is_zero_def is_inf_def val_def)

lemma fmul_zero:
  assumes "is_zero a \<or> is_zero b"
  shows "fmul a b = (if a = NaN \<or> b = NaN \<or> is_inf a \<or> is_inf b then NaN
                     else signed_zero (is_neg a \<noteq> is_neg b))"
proof -
  have "is_zero x \<Longrightarrow> x \<noteq> NaN \<and> \<not> is_inf x" for x
    by (auto simp: is_zero_def is_inf_def)
  with assms show ?thesis by (auto simp: fmul_def)
qed

lemma fmul_zero_sign:
  assumes "same_but_zero_sign a a'" and "same_but_zero_sign b b'"
  shows "same_but_zero_sign (fmul a b) (fmul a' b')"
proof (cases "is_zero a \<or> is_zero b")
  case True
  with zero_sign_cases [OF assms(1)] zero_sign_cases [OF assms(2)]
  have z': "is_zero a' \<or> is_zero b'" by blast
  show ?thesis
    unfolding fmul_zero [OF True] fmul_zero [OF z']
    using zero_sign_cases [OF assms(1)] zero_sign_cases [OF assms(2)]
    by (simp add: same_but_zero_sign_def is_zero_signed_zero)
next
  case False
  with zero_sign_cases [OF assms(1)] zero_sign_cases [OF assms(2)]
  have "a = a'" "b = b'" by blast+
  then show ?thesis by (simp add: same_but_zero_sign_def)
qed

lemma fadd_zero:
  assumes "is_zero a" and "is_zero b"
  shows "is_zero (fadd a b)"
  using assms by (auto simp: fadd_def is_zero_def is_inf_def val_def)

lemma fadd_zero_left:
  assumes "is_zero a" and "\<not> is_zero b"
  shows "fadd a b = (if b = NaN \<or> is_inf b then b else fl (val b))"
proof -
  from assms(1) have a: "a \<noteq> NaN" "\<not> is_inf a" "val a = 0"
    by (auto simp: is_zero_def is_inf_def val_def)
  from assms(2) have "b \<noteq> NaN \<Longrightarrow> \<not> is_inf b \<Longrightarrow> val b \<noteq> 0"
    by (cases b) (simp_all add: is_zero_def is_inf_def val_def)
  with a assms(2) show ?thesis by (auto simp: fadd_def is_zero_def)
qed

lemma fadd_zero_right:
  assumes "\<not> is_zero a" and "is_zero b"
  shows "fadd a b = (if a = NaN \<or> is_inf a then a else fl (val a))"
proof -
  from assms(2) have b: "b \<noteq> NaN" "\<not> is_inf b" "val b = 0"
    by (auto simp: is_zero_def is_inf_def val_def)
  from assms(1) have "a \<noteq> NaN \<Longrightarrow> \<not> is_inf a \<Longrightarrow> val a \<noteq> 0"
    by (cases a) (simp_all add: is_zero_def is_inf_def val_def)
  with b assms(1) show ?thesis by (auto simp: fadd_def is_zero_def)
qed

lemma fadd_zero_sign:
  assumes "same_but_zero_sign a a'" and "same_but_zero_sign b b'"
  shows "same_but_zero_sign (fadd a b) (fadd a' b')"
proof -
  note ca = zero_sign_cases [OF assms(1)] and cb = zero_sign_cases [OF assms(2)]
  consider (zz) "is_zero a" "is_zero b" | (zn) "is_zero a" "\<not> is_zero b"
    | (nz) "\<not> is_zero a" "is_zero b" | (nn) "\<not> is_zero a" "\<not> is_zero b"
    by blast
  then show ?thesis
  proof cases
    case zz
    with ca cb have "is_zero a'" "is_zero b'" by blast+
    with zz fadd_zero [of a b] fadd_zero [of a' b'] show ?thesis
      by (simp add: same_but_zero_sign_def)
  next
    case zn
    with ca cb have z': "is_zero a'" "\<not> is_zero b'" and e: "b = b'" by blast+
    have "fadd a b = fadd a' b'"
      using fadd_zero_left [OF zn] fadd_zero_left [OF z'] e by simp
    then show ?thesis by (simp add: same_but_zero_sign_def)
  next
    case nz
    with ca cb have z': "\<not> is_zero a'" "is_zero b'" and e: "a = a'" by blast+
    have "fadd a b = fadd a' b'"
      using fadd_zero_right [OF nz] fadd_zero_right [OF z'] e by simp
    then show ?thesis by (simp add: same_but_zero_sign_def)
  next
    case nn
    with ca cb have "a = a'" "b = b'" by blast+
    then show ?thesis by (simp add: same_but_zero_sign_def)
  qed
qed

lemma fdiv_zero_sign:
  assumes "same_but_zero_sign a a'"
  shows "same_but_zero_sign (fdiv a (Fin 100)) (fdiv a' (Fin 100))"
proof (cases "is_zero a")
  case True
  with zero_sign_cases [OF assms] have z': "is_zero a'" by blast
  have "is_zero x \<Longrightarrow> is_zero (fdiv x (Fin 100))" for x
    by (auto simp: fdiv_def is_zero_def is_inf_def signed_zero_def)
  from this [OF True] this [OF z'] show ?thesis by (simp add: same_but_zero_sign_def)
next
  case False
  with zero_sign_cases [OF assms] have "a = a'" by blast
  then show ?thesis by (simp add: same_but_zero_sign_def)
qed

lemma round2_zero_sign:
  assumes "same_but_zero_sign a a'"
  shows "round2 a = round2 a'"
proof -
  have "pow2 (- 52) \<noteq> 0" using pow2_pos [of "- 52"] by simp
  then have "fadd NegZero EPSILON = fadd (Fin 0) EPSILON"
    by (simp add: fadd_def EPSILON_def is_inf_def val_def)
  with assms have "fadd a EPSILON = fadd a' EPSILON"
    by (auto simp: same_but_zero_sign_def is_zero_def)
  then show ?thesis by (simp add: round2_def)
qed

lemma foldl_zero_sign:
  assumes "same_but_zero_sign acc acc'" and "\<And>it. same_but_zero_sign (f it) (g it)"
  shows "same_but_zero_sign (foldl (\<lambda>a it. fadd a (f it)) acc xs) (foldl (\<lambda>a it. fadd a (g it)) acc' xs)"
  using assms(1)
proof (induction xs arbitrary: acc acc')
  case Nil
  then show ?case by simp
next
  case (Cons x xs)
  from fadd_zero_sign [OF Cons.prems assms(2) [of x]] Cons.IH show ?case by simp
qed

text \<open>
  Claim C3. The subtotal is \<open>round2\<close> of the sum of the line totals
  \<open>quantity * unitPrice\<close>, taken from 0 and from the left, a quantity or a unit price that
  is not a number (NaN) being treated as 0; the tax is \<open>round2\<close> of
  \<open>subtotal * taxRatePct / 100\<close>, from the subtotal already rounded (a tax rate that is not
  a number being treated as 0); the total is \<open>round2\<close> of \<open>subtotal + tax\<close>. No line total is
  rounded on its own. The code writes \<open>Number(x) || 0\<close>, which replaces NaN by 0 and also
  \<open>-0\<close> by 0; the sign of a zero changes none of the three results.
\<close>

theorem totals_spec:
  "subtotal (totals iv) = round2 (sum_from_zero (map lineTotal (items iv)))
   \<and> tax (totals iv) =
       round2 (fdiv (fmul (subtotal (totals iv)) (nan_as_zero (taxRatePct iv))) (Fin 100))
   \<and> total (totals iv) = round2 (fadd (subtotal (totals iv)) (tax (totals iv)))"
proof -
  have line: "same_but_zero_sign (fmul (num_or_zero (quantity it)) (num_or_zero (unitPrice it)))
      (lineTotal it)" for it
    unfolding lineTotal_def by (intro fmul_zero_sign num_or_zero_nan_as_zero)
  have "same_but_zero_sign
      (foldl (\<lambda>acc it. fadd acc (fmul (num_or_zero (quantity it)) (num_or_zero (unitPrice it))))
         (Fin 0) (items iv))
      (foldl (\<lambda>acc it. fadd acc (lineTotal it)) (Fin 0) (items iv))"
    by (rule foldl_zero_sign) (simp add: same_but_zero_sign_def, rule line)
  from round2_zero_sign [OF this]
  have s: "subtotal (totals iv) = round2 (sum_from_zero (map lineTotal (items iv)))"
    by (simp add: totals_def Let_def sum_from_zero_def foldl_map)
  have "same_but_zero_sign (fmul (subtotal (totals iv)) (num_or_zero (taxRatePct iv)))
      (fmul (subtotal (totals iv)) (nan_as_zero (taxRatePct iv)))"
    by (intro fmul_zero_sign num_or_zero_nan_as_zero) (simp add: same_but_zero_sign_def)
  from round2_zero_sign [OF fdiv_zero_sign [OF this]]
  have t: "tax (totals iv) =
       round2 (fdiv (fmul (subtotal (totals iv)) (nan_as_zero (taxRatePct iv))) (Fin 100))"
    by (simp add: totals_def Let_def)
  have u: "total (totals iv) = round2 (fadd (subtotal (totals iv)) (tax (totals iv)))"
    by (simp add: totals_def Let_def)
  from s t u show ?thesis by simp
qed

theorem totals_spec_witness:
  "subtotal (totals (invoice_of_items [item_a, item_b])) = Fin 1800
   \<and> tax (totals (invoice_of_items [item_a, item_b])) = Fin 180
   \<and> total (totals (invoice_of_items [item_a, item_b])) = Fin 1980
   \<and> subtotal (totals (invoice_of_items [item_nan, item_b])) = Fin 900
   \<and> tax (totals (invoice_of_items [item_nan, item_b])) = Fin 90
   \<and> total (totals (invoice_of_items [item_nan, item_b])) = Fin 990"
proof -
  let ?iv = "invoice_of_items [item_a, item_b]"
  let ?nv = "invoice_of_items [item_nan, item_b]"
  have la: "lineTotal item_a = Fin 900"
    using fl_of_int(1) [of 900] by (simp add: lineTotal_def item_a_def nan_as_zero_def fmul_Fin)
  have lb: "lineTotal item_b = Fin 900"
    using fl_of_int(1) [of 900] by (simp add: lineTotal_def item_b_def nan_as_zero_def fmul_Fin)
  have ln: "lineTotal item_nan = Fin 0"
    by (simp add: lineTotal_def item_nan_def nan_as_zero_def fmul_def is_inf_def is_zero_def
        is_neg_def signed_zero_def)
  have sum: "sum_from_zero (map lineTotal (items ?iv)) = Fin 1800"
    using fl_of_int(1) [of 900] fl_of_int(1) [of 1800]
    by (simp add: sum_from_zero_def invoice_of_items_def la lb fadd_Fin)
  have nsum: "sum_from_zero (map lineTotal (items ?nv)) = Fin 900"
    using fl_of_int(1) [of 900]
    by (simp add: sum_from_zero_def invoice_of_items_def ln lb fadd_Fin)
  have rate: "nan_as_zero (taxRatePct ?iv) = Fin 10" "nan_as_zero (taxRatePct ?nv) = Fin 10"
    by (simp_all add: invoice_of_items_def nan_as_zero_def)
  from totals_spec [of ?iv]
  have s: "subtotal (totals ?iv) = round2 (sum_from_zero (map lineTotal (items ?iv)))"
    and t: "tax (totals ?iv) =
       round2 (fdiv (fmul (subtotal (totals ?iv)) (nan_as_zero (taxRatePct ?iv))) (Fin 100))"
    and u: "total (totals ?iv) = round2 (fadd (subtotal (totals ?iv)) (tax (totals ?iv)))"
    by blast+
  have s': "subtotal (totals ?iv) = Fin 1800" unfolding s sum by (rule round2_1800)
  have "fdiv (fmul (Fin 1800) (Fin 10)) (Fin 100) = Fin 180"
    using fl_of_int(1) [of 18000] fl_of_int(1) [of 180]
    by (simp add: fmul_Fin fdiv_Fin)
  then have t': "tax (totals ?iv) = Fin 180" unfolding t s' rate by (simp add: round2_180)
  have "fadd (Fin 1800) (Fin 180) = Fin 1980"
    using fl_of_int(1) [of 1980] by (simp add: fadd_Fin)
  then have u': "total (totals ?iv) = Fin 1980" unfolding u s' t' by (simp add: round2_1980)
  from totals_spec [of ?nv]
  have ns: "subtotal (totals ?nv) = round2 (sum_from_zero (map lineTotal (items ?nv)))"
    and nt: "tax (totals ?nv) =
       round2 (fdiv (fmul (subtotal (totals ?nv)) (nan_as_zero (taxRatePct ?nv))) (Fin 100))"
    and nu: "total (totals ?nv) = round2 (fadd (subtotal (totals ?nv)) (tax (totals ?nv)))"
    by blast+
  have ns': "subtotal (totals ?nv) = Fin 900" unfolding ns nsum by (rule round2_900)
  have "fdiv (fmul (Fin 900) (Fin 10)) (Fin 100) = Fin 90"
    using fl_of_int(1) [of 9000] fl_of_int(1) [of 90]
    by (simp add: fmul_Fin fdiv_Fin)
  then have nt': "tax (totals ?nv) = Fin 90" unfolding nt ns' rate by (simp add: round2_90)
  have "fadd (Fin 900) (Fin 90) = Fin 990"
    using fl_of_int(1) [of 990] by (simp add: fadd_Fin)
  then have nu': "total (totals ?nv) = Fin 990" unfolding nu ns' nt' by (simp add: round2_990)
  show ?thesis using s' t' u' ns' nt' nu' by simp
qed

section \<open>Reading back the text of a number\<close>

lemma unat_digit_char: "0 \<le> d \<Longrightarrow> d < 10 \<Longrightarrow> unat (digit_char d) = nat (48 + d)"
proof -
  assume d: "0 \<le> d" "d < 10"
  have "unat (of_nat (nat (48 + d)) :: 16 word) = nat (48 + d) mod 2 ^ LENGTH(16)"
    by (rule unat_of_nat)
  also from d have "\<dots> = nat (48 + d)" by simp
  finally show ?thesis by (simp only: digit_char_def)
qed

lemma is_digit_digit_char: "0 \<le> d \<Longrightarrow> d < 10 \<Longrightarrow> is_digit (digit_char d)"
  unfolding is_digit_def by (simp only: unat_digit_char) linarith

lemma digit_val_digit_char: "0 \<le> d \<Longrightarrow> d < 10 \<Longrightarrow> int (digit_val (digit_char d)) = d"
  by (simp add: digit_val_def unat_digit_char)

lemma digit_char_eq_48: "0 \<le> d \<Longrightarrow> d < 10 \<Longrightarrow> digit_char d = 48 \<longleftrightarrow> d = 0"
proof -
  assume d: "0 \<le> d" "d < 10"
  have "digit_char d = 48 \<longleftrightarrow> unat (digit_char d) = unat (48 :: 16 word)"
    by (simp only: word_unat_eq_iff)
  also from d have "\<dots> \<longleftrightarrow> d = 0" by (simp add: unat_digit_char) linarith
  finally show ?thesis .
qed

lemma dec_value_snoc: "dec_value (ds @ [d]) = 10 * dec_value ds + digit_val d"
  by (simp add: dec_value_def)

lemma digits_of_props:
  "0 \<le> n \<Longrightarrow> digits_of n \<noteq> [] \<and> (\<forall>c\<in>set (digits_of n). is_digit c)
     \<and> int (dec_value (digits_of n)) = n \<and> (0 < n \<longrightarrow> hd (digits_of n) \<noteq> 48)"
proof (induction n rule: digits_of.induct)
  case (1 n)
  show ?case
  proof (cases "n < 10")
    case True
    with "1.prems" have "digits_of n = [digit_char n]" by (simp add: digits_of.simps)
    with True "1.prems" show ?thesis
      using digit_val_digit_char [of n]
      by (simp add: is_digit_digit_char digit_char_eq_48 dec_value_def)
  next
    case False
    then have eq: "digits_of n = digits_of (n div 10) @ [digit_char (n mod 10)]"
      by (subst digits_of.simps) simp
    from False "1.prems" have "0 \<le> n div 10" "0 < n div 10" by simp_all
    with "1.IH" [OF False] have ih: "digits_of (n div 10) \<noteq> []"
      "\<forall>c\<in>set (digits_of (n div 10)). is_digit c"
      "int (dec_value (digits_of (n div 10))) = n div 10" "hd (digits_of (n div 10)) \<noteq> 48"
      by simp_all
    have m: "0 \<le> n mod 10" "n mod 10 < 10" by simp_all
    from ih m show ?thesis
      using digit_val_digit_char [OF m]
      by (simp add: eq dec_value_snoc is_digit_digit_char)
  qed
qed

lemma foldl_dec:
  "foldl (\<lambda>a d. 10 * a + digit_val d) acc b
     = acc * 10 ^ length b + foldl (\<lambda>a d. 10 * a + digit_val d) 0 b"
proof (induction b arbitrary: acc)
  case Nil
  show ?case by simp
next
  case (Cons x b)
  have "foldl (\<lambda>a d. 10 * a + digit_val d) acc (x # b)
      = (10 * acc + digit_val x) * 10 ^ length b + foldl (\<lambda>a d. 10 * a + digit_val d) 0 b"
    using Cons [of "10 * acc + digit_val x"] by simp
  moreover have "foldl (\<lambda>a d. 10 * a + digit_val d) 0 (x # b)
      = digit_val x * 10 ^ length b + foldl (\<lambda>a d. 10 * a + digit_val d) 0 b"
    using Cons [of "digit_val x"] by simp
  ultimately show ?case by (simp add: algebra_simps)
qed

lemma dec_value_append: "dec_value (a @ b) = dec_value a * 10 ^ length b + dec_value b"
  using foldl_dec [of "dec_value a" b] by (simp add: dec_value_def)

lemma dec_value_zeros: "dec_value (replicate z 48) = 0"
  by (induction z) (simp_all add: dec_value_def digit_val_def)

lemma take_digits:
  assumes "\<forall>c\<in>set ds. is_digit c" and "rest = [] \<or> \<not> is_digit (hd rest)"
  shows "takeWhile is_digit (ds @ rest) = ds" and "dropWhile is_digit (ds @ rest) = rest"
proof -
  from assms(2) have "takeWhile is_digit rest = []" "dropWhile is_digit rest = rest"
    by (cases rest; simp)+
  with assms(1) show "takeWhile is_digit (ds @ rest) = ds" "dropWhile is_digit (ds @ rest) = rest"
    by (simp_all add: takeWhile_append2 dropWhile_append2)
qed

lemma lex_number_parts:
  assumes ip: "\<forall>c\<in>set ip. is_digit c" "ip \<noteq> []" "length ip = 1 \<or> hd ip \<noteq> 48"
    and tail: "tail = [] \<or> \<not> is_digit (hd tail)"
    and frac: "lex_frac tail = Some (fp, cs3)" and ex: "lex_exp cs3 = Some (e, cs4)"
  shows "lex_number (ip @ tail) = Some (number_value False (dec_value (ip @ fp)) (e - int (length fp)), cs4)"
    and "lex_number (45 # ip @ tail) = Some (number_value True (dec_value (ip @ fp)) (e - int (length fp)), cs4)"
proof -
  from ip obtain c r where c: "ip = c # r" by (cases ip) auto
  with ip have d: "is_digit c" by simp
  then have n45: "c \<noteq> 45" by (auto simp: is_digit_def)
  from c n45 have neg: "(case ip @ tail of c # _ \<Rightarrow> c = 45 | [] \<Rightarrow> False) = False" by simp
  note tw = take_digits [OF ip(1) tail]
  from ip(2,3) have lz: "(ip = [] \<or> (1 < length ip \<and> hd ip = 48)) = False" by auto
  show "lex_number (ip @ tail) = Some (number_value False (dec_value (ip @ fp)) (e - int (length fp)), cs4)"
    unfolding lex_number_def Let_def neg by (simp only: if_False tw lz frac ex option.case prod.case)
  have neg': "(case 45 # ip @ tail of c # _ \<Rightarrow> c = 45 | [] \<Rightarrow> False) = True" by simp
  show "lex_number (45 # ip @ tail) = Some (number_value True (dec_value (ip @ fp)) (e - int (length fp)), cs4)"
    unfolding lex_number_def Let_def neg' by (simp only: if_True if_False list.sel tw lz frac ex option.case prod.case)
qed

lemma delim_not_digit: "delim rest \<Longrightarrow> rest = [] \<or> \<not> is_digit (hd rest)"
  by (auto simp: delim_def is_digit_def split: list.splits)

lemma lex_frac_none: "delim rest \<Longrightarrow> lex_frac rest = Some ([], rest)"
  by (auto simp: lex_frac_def delim_def split: list.splits)

lemma lex_exp_none: "delim rest \<Longrightarrow> lex_exp rest = Some (0, rest)"
  by (auto simp: lex_exp_def delim_def split: list.splits)

lemma lex_frac_digits:
  assumes "\<forall>c\<in>set fd. is_digit c" and "fd \<noteq> []" and "rest = [] \<or> \<not> is_digit (hd rest)"
  shows "lex_frac (46 # fd @ rest) = Some (fd, rest)"
  using take_digits [OF assms(1,3)] assms(2) by (simp add: lex_frac_def)

lemma lex_frac_e: "lex_frac (101 # r) = Some ([], 101 # r)"
  by (simp add: lex_frac_def)

lemma lex_exp_digits:
  assumes "delim rest"
  shows "lex_exp (101 # (if x < 0 then 45 else 43) # digits_of \<bar>x\<bar> @ rest) = Some (x, rest)"
proof -
  have p: "digits_of \<bar>x\<bar> \<noteq> []" "\<forall>c\<in>set (digits_of \<bar>x\<bar>). is_digit c"
    "int (dec_value (digits_of \<bar>x\<bar>)) = \<bar>x\<bar>"
    using digits_of_props [of "\<bar>x\<bar>"] by simp_all
  note tw = take_digits [OF p(2) delim_not_digit [OF assms]]
  show ?thesis
  proof (cases "x < 0")
    case True
    with tw p(1,3) show ?thesis by (simp add: lex_exp_def)
  next
    case False
    with tw p(1,3) show ?thesis by (simp add: lex_exp_def)
  qed
qed

lemma number_value_fl:
  assumes "m \<noteq> 0" and "of_nat m * 10 powi e = r"
  shows "number_value False m e = fl r" and "number_value True m e = fl (- r)"
  using assms by (simp_all add: number_value_def)

lemma lex_number_text:
  assumes "t = ip @ tail"
    and "\<forall>c\<in>set ip. is_digit c" and "ip \<noteq> []" and "length ip = 1 \<or> hd ip \<noteq> 48"
    and "tail = [] \<or> \<not> is_digit (hd tail)"
    and "lex_frac tail = Some (fp, mid)" and "lex_exp mid = Some (e, rest)"
    and "dec_value (ip @ fp) \<noteq> 0"
    and "of_nat (dec_value (ip @ fp)) * 10 powi (e - int (length fp)) = r"
  shows "lex_number t = Some (fl r, rest) \<and> lex_number (45 # t) = Some (fl (- r), rest)"
  using lex_number_parts [OF assms(2-7)] number_value_fl [OF assms(8,9)] assms(1) by simp

lemma dec_value_zeros_append: "dec_value (replicate z 48 @ ds) = dec_value ds"
  by (simp add: dec_value_append dec_value_zeros)

lemma dec_value_zero_Cons: "dec_value (48 # ds) = dec_value ds"
  using dec_value_zeros_append [of 1 ds] by simp

lemma lex_number_format:
  assumes s: "0 < s" and rest: "delim rest"
  shows "lex_number (format_digits (digits_of s) n @ rest)
           = Some (fl (of_int s * 10 powi (n - int (length (digits_of s)))), rest)
       \<and> lex_number (45 # format_digits (digits_of s) n @ rest)
           = Some (fl (- (of_int s * 10 powi (n - int (length (digits_of s))))), rest)"
proof -
  define ds where "ds = digits_of s"
  define k where "k = int (length ds)"
  from s digits_of_props [of s] have p: "ds \<noteq> []" "\<forall>c\<in>set ds. is_digit c"
    "int (dec_value ds) = s" "hd ds \<noteq> 48"
    by (simp_all add: ds_def)
  from p(3) s have nz: "dec_value ds \<noteq> 0" by auto
  from p(3) have sv: "(of_nat (dec_value ds) :: rat) = of_int s"
    by (metis of_int_of_nat_eq)
  from p(1) have k1: "1 \<le> k" by (cases ds) (simp_all add: k_def)
  note nd = delim_not_digit [OF rest]
  have goal: "lex_number (format_digits ds n @ rest) = Some (fl (of_int s * 10 powi (n - k)), rest)
       \<and> lex_number (45 # format_digits ds n @ rest) = Some (fl (- (of_int s * 10 powi (n - k))), rest)"
  proof -
    consider (a) "k \<le> n" "n \<le> 21" | (b) "0 < n" "n < k" "n \<le> 21" | (c) "- 6 < n" "n \<le> 0"
      | (d1) "n \<le> - 6 \<or> 21 < n" "k = 1" | (d2) "n \<le> - 6 \<or> 21 < n" "k \<noteq> 1"
      by linarith
    then show ?thesis
    proof cases
      case a
      define z where "z = nat (n - k)"
      from a have f: "format_digits ds n = ds @ replicate z 48"
        by (simp add: format_digits_def Let_def k_def z_def)
      have pw: "(10::rat) powi (n - k) = 10 ^ z"
        using a by (simp add: power_int_def z_def)
      show ?thesis
      proof (rule lex_number_text [where ip = "ds @ replicate z 48" and tail = rest and fp = "[]"
            and mid = rest and e = 0])
        show "format_digits ds n @ rest = (ds @ replicate z 48) @ rest" by (simp add: f)
        show "\<forall>c\<in>set (ds @ replicate z 48). is_digit c" using p(2) by (auto simp: is_digit_def)
        show "ds @ replicate z 48 \<noteq> []" using p(1) by simp
        show "length (ds @ replicate z 48) = 1 \<or> hd (ds @ replicate z 48) \<noteq> 48"
          using p(1,4) by simp
        show "rest = [] \<or> \<not> is_digit (hd rest)" by (rule nd)
        show "lex_frac rest = Some ([], rest)" by (rule lex_frac_none [OF rest])
        show "lex_exp rest = Some (0, rest)" by (rule lex_exp_none [OF rest])
        show "dec_value ((ds @ replicate z 48) @ []) \<noteq> 0"
          using nz by (simp add: dec_value_append dec_value_zeros)
        show "of_nat (dec_value ((ds @ replicate z 48) @ [])) * 10 powi (0 - int (length ([]::jsstring)))
            = (of_int s :: rat) * 10 powi (n - k)"
          by (simp add: dec_value_append dec_value_zeros sv pw)
      qed
    next
      case b
      define m where "m = nat n"
      from b have m: "0 < m" "m < length ds" "int m = n" by (simp_all add: m_def k_def)
      from b have f: "format_digits ds n = take m ds @ 46 # drop m ds"
        by (simp add: format_digits_def Let_def k_def m_def)
      have len: "int (length (drop m ds)) = k - n" using m by (simp add: k_def)
      show ?thesis
      proof (rule lex_number_text [where ip = "take m ds" and tail = "46 # drop m ds @ rest"
            and fp = "drop m ds" and mid = rest and e = 0])
        show "format_digits ds n @ rest = take m ds @ 46 # drop m ds @ rest" by (simp add: f)
        show "\<forall>c\<in>set (take m ds). is_digit c" using p(2) by (meson in_set_takeD)
        show "take m ds \<noteq> []" using m p(1) by simp
        show "length (take m ds) = 1 \<or> hd (take m ds) \<noteq> 48" using m p(4) by simp
        show "46 # drop m ds @ rest = [] \<or> \<not> is_digit (hd (46 # drop m ds @ rest))"
          by (simp add: is_digit_def)
        show "lex_frac (46 # drop m ds @ rest) = Some (drop m ds, rest)"
        proof (rule lex_frac_digits)
          show "\<forall>c\<in>set (drop m ds). is_digit c" using p(2) by (meson in_set_dropD)
          show "drop m ds \<noteq> []" using m by simp
          show "rest = [] \<or> \<not> is_digit (hd rest)" by (rule nd)
        qed
        show "lex_exp rest = Some (0, rest)" by (rule lex_exp_none [OF rest])
        show "dec_value (take m ds @ drop m ds) \<noteq> 0" using nz by simp
        show "of_nat (dec_value (take m ds @ drop m ds)) * 10 powi (0 - int (length (drop m ds)))
            = (of_int s :: rat) * 10 powi (n - k)"
          by (simp only: append_take_drop_id sv len) simp
      qed
    next
      case c
      define z where "z = nat (- n)"
      from c k1 have f: "format_digits ds n = 48 # 46 # replicate z 48 @ ds"
        by (simp add: format_digits_def Let_def k_def z_def)
      have len: "int (length (replicate z 48 @ ds)) = k - n" using c by (simp add: k_def z_def)
      show ?thesis
      proof (rule lex_number_text [where ip = "[48]" and tail = "46 # (replicate z 48 @ ds) @ rest"
            and fp = "replicate z 48 @ ds" and mid = rest and e = 0])
        show "format_digits ds n @ rest = [48] @ 46 # (replicate z 48 @ ds) @ rest" by (simp add: f)
        show "\<forall>c\<in>set [48]. is_digit c" by (simp add: is_digit_def)
        show "[48::16 word] \<noteq> []" by simp
        show "length [48::16 word] = 1 \<or> hd [48::16 word] \<noteq> 48" by simp
        show "46 # (replicate z 48 @ ds) @ rest = [] \<or> \<not> is_digit (hd (46 # (replicate z 48 @ ds) @ rest))"
          by (simp add: is_digit_def)
        show "lex_frac (46 # (replicate z 48 @ ds) @ rest) = Some (replicate z 48 @ ds, rest)"
        proof (rule lex_frac_digits)
          show "\<forall>c\<in>set (replicate z 48 @ ds). is_digit c" using p(2) by (auto simp: is_digit_def)
          show "replicate z 48 @ ds \<noteq> []" using p(1) by simp
          show "rest = [] \<or> \<not> is_digit (hd rest)" by (rule nd)
        qed
        show "lex_exp rest = Some (0, rest)" by (rule lex_exp_none [OF rest])
        have dv: "dec_value ([48] @ replicate z 48 @ ds) = dec_value ds"
          by (simp add: dec_value_zero_Cons dec_value_zeros_append)
        show "dec_value ([48] @ replicate z 48 @ ds) \<noteq> 0" using nz by (simp only: dv) simp
        show "of_nat (dec_value ([48] @ replicate z 48 @ ds)) * 10 powi (0 - int (length (replicate z 48 @ ds)))
            = (of_int s :: rat) * 10 powi (n - k)"
          by (simp only: dv len sv) simp
      qed
    next
      case d1
      from d1 p(1) have f: "format_digits ds n
          = ds @ 101 # (if n - 1 < 0 then 45 else 43) # digits_of \<bar>n - 1\<bar>"
        by (auto simp: format_digits_def Let_def k_def)
      show ?thesis
      proof (rule lex_number_text [where ip = ds
            and tail = "101 # (if n - 1 < 0 then 45 else 43) # digits_of \<bar>n - 1\<bar> @ rest"
            and fp = "[]" and mid = "101 # (if n - 1 < 0 then 45 else 43) # digits_of \<bar>n - 1\<bar> @ rest"
            and e = "n - 1"])
        show "format_digits ds n @ rest
            = ds @ 101 # (if n - 1 < 0 then 45 else 43) # digits_of \<bar>n - 1\<bar> @ rest"
          by (simp add: f)
        show "\<forall>c\<in>set ds. is_digit c" by (rule p(2))
        show "ds \<noteq> []" by (rule p(1))
        show "length ds = 1 \<or> hd ds \<noteq> 48" using p(4) by simp
        show "101 # (if n - 1 < 0 then 45 else 43) # digits_of \<bar>n - 1\<bar> @ rest = []
            \<or> \<not> is_digit (hd (101 # (if n - 1 < 0 then 45 else 43) # digits_of \<bar>n - 1\<bar> @ rest))"
          by (simp add: is_digit_def)
        show "lex_frac (101 # (if n - 1 < 0 then 45 else 43) # digits_of \<bar>n - 1\<bar> @ rest)
            = Some ([], 101 # (if n - 1 < 0 then 45 else 43) # digits_of \<bar>n - 1\<bar> @ rest)"
          by (rule lex_frac_e)
        show "lex_exp (101 # (if n - 1 < 0 then 45 else 43) # digits_of \<bar>n - 1\<bar> @ rest)
            = Some (n - 1, rest)"
          by (rule lex_exp_digits [OF rest])
        show "dec_value (ds @ []) \<noteq> 0" using nz by simp
        show "of_nat (dec_value (ds @ [])) * 10 powi (n - 1 - int (length ([]::jsstring)))
            = (of_int s :: rat) * 10 powi (n - k)"
          using d1 by (simp add: sv)
      qed
    next
      case d2
      from d2 p(1) have f: "format_digits ds n
          = hd ds # 46 # tl ds @ 101 # (if n - 1 < 0 then 45 else 43) # digits_of \<bar>n - 1\<bar>"
        by (auto simp: format_digits_def Let_def k_def)
      from d2 k1 p(1) have tl: "tl ds \<noteq> []" by (cases ds) (auto simp: k_def)
      from p(1) have len: "int (length (tl ds)) = k - 1" by (cases ds) (simp_all add: k_def)
      from p(1) have hd_tl: "[hd ds] @ tl ds = ds" by simp
      show ?thesis
      proof (rule lex_number_text [where ip = "[hd ds]"
            and tail = "46 # tl ds @ 101 # (if n - 1 < 0 then 45 else 43) # digits_of \<bar>n - 1\<bar> @ rest"
            and fp = "tl ds" and mid = "101 # (if n - 1 < 0 then 45 else 43) # digits_of \<bar>n - 1\<bar> @ rest"
            and e = "n - 1"])
        show "format_digits ds n @ rest
            = [hd ds] @ 46 # tl ds @ 101 # (if n - 1 < 0 then 45 else 43) # digits_of \<bar>n - 1\<bar> @ rest"
          by (simp add: f)
        show "\<forall>c\<in>set [hd ds]. is_digit c" using p(1,2) by simp
        show "[hd ds] \<noteq> []" by simp
        show "length [hd ds] = 1 \<or> hd [hd ds] \<noteq> 48" by simp
        show "46 # tl ds @ 101 # (if n - 1 < 0 then 45 else 43) # digits_of \<bar>n - 1\<bar> @ rest = []
            \<or> \<not> is_digit (hd (46 # tl ds @ 101 # (if n - 1 < 0 then 45 else 43) # digits_of \<bar>n - 1\<bar> @ rest))"
          by (simp add: is_digit_def)
        show "lex_frac (46 # tl ds @ 101 # (if n - 1 < 0 then 45 else 43) # digits_of \<bar>n - 1\<bar> @ rest)
            = Some (tl ds, 101 # (if n - 1 < 0 then 45 else 43) # digits_of \<bar>n - 1\<bar> @ rest)"
        proof (rule lex_frac_digits)
          show "\<forall>c\<in>set (tl ds). is_digit c" using p(1,2) by (meson list.set_sel(2))
          show "tl ds \<noteq> []" by (rule tl)
          show "101 # (if n - 1 < 0 then 45 else 43) # digits_of \<bar>n - 1\<bar> @ rest = []
              \<or> \<not> is_digit (hd (101 # (if n - 1 < 0 then 45 else 43) # digits_of \<bar>n - 1\<bar> @ rest))"
            by (simp add: is_digit_def)
        qed
        show "lex_exp (101 # (if n - 1 < 0 then 45 else 43) # digits_of \<bar>n - 1\<bar> @ rest)
            = Some (n - 1, rest)"
          by (rule lex_exp_digits [OF rest])
        show "dec_value ([hd ds] @ tl ds) \<noteq> 0" using nz by (simp only: hd_tl) simp
        show "of_nat (dec_value ([hd ds] @ tl ds)) * 10 powi (n - 1 - int (length (tl ds)))
            = (of_int s :: rat) * 10 powi (n - k)"
          by (simp only: hd_tl len sv) simp
      qed
    qed
  qed
  then show ?thesis by (simp add: ds_def k_def)
qed

lemma ilog10_range: "- 400 \<le> ilog10 x \<and> ilog10 x \<le> 400"
proof (cases "find (\<lambda>n. 10 powi n \<le> x) (rev [- 400 .. 400])")
  case None
  then have "ilog10 x = - 400" by (simp only: ilog10_def option.case)
  then show ?thesis by simp
next
  case (Some n)
  then obtain i where "i < length (rev [- 400 .. 400 :: int])" "n = rev [- 400 .. 400] ! i"
    unfolding find_Some_iff by blast
  then have "n \<in> set (rev [- 400 .. 400])" by (metis nth_mem)
  then have "n \<in> {- 400 .. 400}" by (simp only: set_rev set_upto)
  moreover from Some have "ilog10 x = n" by (simp only: ilog10_def option.case)
  ultimately show ?thesis by simp
qed

lemma double_grid:
  assumes "0 < x" and "fl x = Fin x"
  shows "\<exists>i. x = of_int i * pow2 (- 1074)"
proof -
  from assms(2) have "is_double (Fin x)" by (simp add: is_double_def)
  from snearest_double [OF this] assms(1) have n: "nearest x = x" by (simp add: snearest_def)
  define j where "j = max (ilog2 x) (- 1022) - 52"
  have j: "0 \<le> j + 1074" by (simp add: j_def)
  have "pow2 j = pow2 ((j + 1074) + (- 1074))" by simp
  also have "\<dots> = pow2 (j + 1074) * pow2 (- 1074)" by (rule pow2_add)
  also have "pow2 (j + 1074) = of_int (2 ^ nat (j + 1074))" using j by (simp add: pow2_nat)
  finally have q: "quantum x = of_int (2 ^ nat (j + 1074)) * pow2 (- 1074)"
    by (simp add: quantum_def j_def)
  have "x = of_int (round_half_even (x / quantum x)) * quantum x"
    using n by (simp add: nearest_def)
  also have "\<dots> = of_int (round_half_even (x / quantum x) * 2 ^ nat (j + 1074)) * pow2 (- 1074)"
    by (subst q) simp
  finally show ?thesis by blast
qed

lemma grid_div:
  assumes "x = of_int i * pow2 (- int N)"
  shows "x / 10 powi (- int N) = of_int (i * 5 ^ N)"
proof -
  have t: "(10::rat) ^ N = 2 ^ N * 5 ^ N" by (simp flip: power_mult_distrib)
  have p: "pow2 (- int N) * 2 ^ N = 1" by (simp add: pow2_def power_int_minus)
  have "x / 10 powi (- int N) = x * 10 ^ N" by (simp add: power_int_minus divide_inverse)
  also have "\<dots> = of_int i * (pow2 (- int N) * 2 ^ N) * 5 ^ N" by (simp add: assms t)
  also have "\<dots> = of_int (i * 5 ^ N)" by (simp only: p) simp
  finally show ?thesis .
qed

lemma candidate_exact:
  assumes x: "0 < x" and d: "fl x = Fin x"
  shows "candidate x (nat (ilog10 x + 1075)) \<noteq> None"
proof -
  define N :: nat where "N = 1074"
  define p :: rat where "p = 10 powi (- int N)"
  from double_grid [OF x d] obtain i where "x = of_int i * pow2 (- 1074)" by blast
  then have "x = of_int i * pow2 (- int N)" by (simp add: N_def)
  from grid_div [OF this] have xp: "x / p = of_int (i * 5 ^ N)" by (simp add: p_def)
  have p0: "0 < p" by (simp add: p_def)
  define sf where "sf = \<lfloor>x / p\<rfloor>"
  have sf: "of_int sf = x / p" by (simp add: sf_def xp)
  with p0 have lo: "of_int sf * p = x" by simp
  from sf x p0 have "0 < (of_int sf :: rat)" by simp
  then have sf0: "0 < sf" by simp
  have e: "ilog10 x + 1 - int (nat (ilog10 x + 1075)) = - int N"
    using ilog10_range [of x] by (simp add: N_def)
  have hi: "x < (of_int sf + 1) * p" using lo p0 by (simp add: algebra_simps)
  have "candidate x (nat (ilog10 x + 1075)) = Some (sf, - int N)"
    unfolding candidate_def Let_def e
    unfolding p_def [symmetric] sf_def [symmetric]
    using sf0 p0 d by (simp add: lo hi)
  then show ?thesis by simp
qed

lemma candidate_sound:
  assumes "candidate x k = Some (s, e)" and k: "1 \<le> k" and x: "0 < x"
  shows "0 < s \<and> fl (of_int s * 10 powi e) = Fin x"
proof -
  define e0 where "e0 = ilog10 x + 1 - int k"
  define p :: rat where "p = 10 powi e0"
  define sf where "sf = \<lfloor>x / p\<rfloor>"
  have p0: "0 < p" by (simp add: p_def)
  with x have "0 \<le> x / p" by simp
  then have sf0: "0 \<le> sf" by (simp add: sf_def)
  have p1: "10 powi (e0 + 1) = p * 10" by (simp add: p_def power_int_add)
  from k have k10: "(10::int) ^ (k - 1) * 10 = 10 ^ k" by (cases k) simp_all
  define L where "L \<longleftrightarrow> 0 < sf \<and> fl (of_int sf * p) = Fin x \<and>
         (fl (of_int (sf + 1) * p) \<noteq> Fin x \<or> x - of_int sf * p < of_int (sf + 1) * p - x
          \<or> (x - of_int sf * p = of_int (sf + 1) * p - x \<and> even sf))"
  define H where "H \<longleftrightarrow> fl (of_int (sf + 1) * p) = Fin x"
  have c: "candidate x k =
     (if L then Some (sf, e0)
      else if H then (if sf + 1 = 10 ^ k then Some (10 ^ (k - 1), e0 + 1) else Some (sf + 1, e0))
      else None)"
    unfolding candidate_def Let_def e0_def [symmetric]
    unfolding p_def [symmetric] sf_def [symmetric] L_def H_def by simp
  show ?thesis
  proof (cases L)
    case True
    with assms(1) have "s = sf" "e = e0" by (simp_all add: c)
    with True show ?thesis by (simp add: L_def p_def)
  next
    case nl: False
    show ?thesis
    proof (cases H)
      case False
      with nl assms(1) show ?thesis by (simp add: c)
    next
      case True
      then have h: "fl (of_int (sf + 1) * p) = Fin x" by (simp add: H_def)
      show ?thesis
      proof (cases "sf + 1 = 10 ^ k")
        case carry: True
        with nl True assms(1) have se: "s = 10 ^ (k - 1)" "e = e0 + 1" by (simp_all add: c)
        have "(of_int s :: rat) * 10 powi e = of_int (10 ^ (k - 1) * 10) * p"
          by (simp add: se p1)
        also have "\<dots> = of_int (sf + 1) * p" by (simp only: k10 carry)
        finally have "fl (of_int s * 10 powi e) = Fin x" using h by simp
        moreover have "0 < s" by (simp add: se)
        ultimately show ?thesis by simp
      next
        case False
        with nl True assms(1) have se: "s = sf + 1" "e = e0" by (simp_all add: c)
        with sf0 h show ?thesis by (simp add: p_def)
      qed
    qed
  qed
qed

lemma first_candidate_sound:
  "first_candidate x ks = Some (s, e) \<Longrightarrow> \<forall>k\<in>set ks. 1 \<le> k \<Longrightarrow> 0 < x
     \<Longrightarrow> 0 < s \<and> fl (of_int s * 10 powi e) = Fin x"
proof (induction ks)
  case Nil
  then show ?case by simp
next
  case (Cons k ks)
  show ?case
  proof (cases "candidate x k")
    case None
    with Cons show ?thesis by simp
  next
    case (Some r)
    with Cons.prems(1) have "candidate x k = Some (s, e)" by simp
    from candidate_sound [OF this] Cons.prems show ?thesis by simp
  qed
qed

lemma first_candidate_complete:
  "k \<in> set ks \<Longrightarrow> candidate x k \<noteq> None \<Longrightarrow> first_candidate x ks \<noteq> None"
  by (induction ks) (auto split: option.splits)

lemma shortest_double:
  assumes x: "0 < x" and d: "fl x = Fin x"
  shows "\<exists>s e. shortest x = Some (s, e) \<and> 0 < s \<and> fl (of_int s * 10 powi e) = Fin x"
proof -
  have "1 \<le> nat (ilog10 x + 1075) \<and> nat (ilog10 x + 1075) < 1500"
    using ilog10_range [of x] by linarith
  then have "nat (ilog10 x + 1075) \<in> set [1 ..< 1500]"
    by (simp only: set_upt atLeastLessThan_iff)
  from first_candidate_complete [OF this candidate_exact [OF x d]]
  obtain s e where fc: "first_candidate x [1 ..< 1500] = Some (s, e)" by fastforce
  have "\<forall>k\<in>set [1 ..< 1500]. 1 \<le> k" by (simp only: set_upt atLeastLessThan_iff) simp
  from first_candidate_sound [OF fc this x] fc show ?thesis by (simp only: shortest_def) simp
qed

lemma fl_minus:
  assumes "fl r = Fin x" and "x \<noteq> 0"
  shows "fl (- r) = Fin (- x)"
  using assms by (auto simp: fl_def Let_def split: if_splits)

lemma lex_positive:
  assumes x: "0 < x" and d: "fl x = Fin x" and rest: "delim rest"
  shows "lex_number (positive_to_string x @ rest) = Some (Fin x, rest)"
    and "lex_number (45 # positive_to_string x @ rest) = Some (Fin (- x), rest)"
proof -
  from shortest_double [OF x d] obtain s e where se: "shortest x = Some (s, e)" "0 < s"
    "fl (of_int s * 10 powi e) = Fin x" by blast
  define n where "n = e + int (length (digits_of s))"
  have t: "positive_to_string x = format_digits (digits_of s) n"
    by (simp add: positive_to_string_def se(1) n_def)
  have e: "n - int (length (digits_of s)) = e" by (simp add: n_def)
  from x have "x \<noteq> 0" by simp
  note m = fl_minus [OF se(3) this]
  from lex_number_format [OF se(2) rest, of n]
  show "lex_number (positive_to_string x @ rest) = Some (Fin x, rest)"
    and "lex_number (45 # positive_to_string x @ rest) = Some (Fin (- x), rest)"
    by (simp_all only: t e se(3) m)
qed

lemma lex_zero:
  assumes "delim rest"
  shows "lex_number (48 # rest) = Some (Fin 0, rest)"
proof -
  have "lex_number ([48] @ rest) = Some (number_value False (dec_value ([48] @ [])) (0 - int (length ([]::jsstring))), rest)"
    by (rule lex_number_parts(1) [OF _ _ _ delim_not_digit [OF assms] lex_frac_none [OF assms]
          lex_exp_none [OF assms]]) (simp_all add: is_digit_def)
  then show ?thesis by (simp add: number_value_def dec_value_def digit_val_def)
qed

lemma lex_json_number:
  assumes "is_double n" and "is_fin n" and "delim rest"
  shows "lex_number (json_number n @ rest) = Some (canonical n, rest)"
proof (cases n)
  case (Fin r)
  with assms(1) have d: "fl r = Fin r" by (simp add: is_double_def)
  consider "r = 0" | "0 < r" | "r < 0" by linarith
  then show ?thesis
  proof cases
    case 1
    with Fin lex_zero [OF assms(3)] show ?thesis
      by (simp add: json_number_def is_fin_def num_to_string_def canonical_def js_def)
  next
    case 2
    with Fin lex_positive(1) [OF 2 d assms(3)] show ?thesis
      by (simp add: json_number_def is_fin_def num_to_string_def canonical_def)
  next
    case 3
    then have "r \<noteq> 0" by simp
    from fl_minus [OF d this] have "fl (- r) = Fin (- r)" .
    from lex_positive(2) [OF _ this assms(3)] 3 Fin show ?thesis
      by (simp add: json_number_def is_fin_def num_to_string_def canonical_def)
  qed
next
  case NegZero
  with lex_zero [OF assms(3)] show ?thesis
    by (simp add: json_number_def is_fin_def num_to_string_def canonical_def js_def)
qed (use assms(2) in \<open>simp_all add: is_fin_def\<close>)

section \<open>Reading back the text of a string\<close>

lemma unat_hex_digit: "d < 16 \<Longrightarrow> unat (hex_digit d) = (if d < 10 then 48 + d else 87 + d)"
proof -
  assume d: "d < 16"
  have "unat (of_nat (if d < 10 then 48 + d else 87 + d) :: 16 word)
      = (if d < 10 then 48 + d else 87 + d) mod 2 ^ LENGTH(16)"
    by (rule unat_of_nat)
  also from d have "\<dots> = (if d < 10 then 48 + d else 87 + d)" by simp
  finally show ?thesis by (simp only: hex_digit_def)
qed

lemma hex_val_hex_digit: "d < 16 \<Longrightarrow> hex_val (hex_digit d) = Some d"
  by (simp add: hex_val_def Let_def unat_hex_digit)

lemma hex_digit_ne: "d < 16 \<Longrightarrow> hex_digit d \<noteq> 34"
  using unat_hex_digit [of d] by (auto split: if_splits)

lemma hex_digits_value:
  "((u div 4096 * 16 + u div 256 mod 16) * 16 + u div 16 mod 16) * 16 + u mod 16 = (u::nat)"
proof -
  define q1 where "q1 = u div 16"
  define q2 where "q2 = q1 div 16"
  define q3 where "q3 = q2 div 16"
  have d2: "u div 256 = q2" unfolding q2_def q1_def by (simp add: div_mult2_eq [symmetric])
  have d3: "u div 4096 = q3" unfolding q3_def q2_def q1_def by (simp add: div_mult2_eq [symmetric])
  have "(q3 * 16 + q2 mod 16) * 16 + q1 mod 16 = q1"
    unfolding q3_def q2_def by simp
  then have "((q3 * 16 + q2 mod 16) * 16 + q1 mod 16) * 16 + u mod 16 = q1 * 16 + u mod 16"
    by simp
  also have "\<dots> = u" unfolding q1_def by simp
  finally show ?thesis by (simp only: d2 d3 q1_def [symmetric])
qed

lemma lex_string_unicode_escape:
  assumes "u < 65536"
  shows "lex_string (unicode_escape u @ r)
           = map_option (\<lambda>(s, rest). (of_nat u # s, rest)) (lex_string r)"
proof -
  define a where "a = u div 4096"
  define b where "b = u div 256 mod 16"
  define c where "c = u div 16 mod 16"
  define d where "d = u mod 16"
  from assms have h: "a < 16" "b < 16" "c < 16" "d < 16"
    by (simp_all add: a_def b_def c_def d_def)
  have v: "((a * 16 + b) * 16 + c) * 16 + d = u"
    unfolding a_def b_def c_def d_def by (rule hex_digits_value)
  have e: "unicode_escape u = [92, 117, hex_digit a, hex_digit b, hex_digit c, hex_digit d]"
    by (simp add: unicode_escape_def a_def b_def c_def d_def)
  have w: "(of_nat (((a * 16 + b) * 16 + c) * 16 + d) :: 16 word) = of_nat u"
    by (simp only: v)
  show ?thesis
    using w by (simp add: e hex_val_hex_digit h)
qed

lemma lex_string_plain:
  assumes "c \<noteq> 34" and "c \<noteq> 92" and "32 \<le> unat c"
  shows "lex_string (c # r) = map_option (\<lambda>(s, rest). (c # s, rest)) (lex_string r)"
  using assms by simp

lemma lex_string_quote_unit:
  "lex_string (quote_unit c @ r) = map_option (\<lambda>(s, rest). (c # s, rest)) (lex_string r)"
proof -
  have u: "unat c < 65536" using unsigned_less [of c] by simp
  consider "c = 8" | "c = 9" | "c = 10" | "c = 12" | "c = 13" | "c = 34" | "c = 92"
    | (esc) "c \<notin> {8, 9, 10, 12, 13, 34, 92}" "unat c < 32 \<or> is_high (unat c) \<or> is_low (unat c)"
    | (plain) "c \<notin> {8, 9, 10, 12, 13, 34, 92}" "\<not> (unat c < 32 \<or> is_high (unat c) \<or> is_low (unat c))"
    by blast
  then show ?thesis
  proof cases
    case esc
    then have "quote_unit c = unicode_escape (unat c)" by (simp add: quote_unit_def)
    with lex_string_unicode_escape [OF u, of r] show ?thesis by simp
  next
    case plain
    then have "quote_unit c = [c]" by (simp add: quote_unit_def)
    moreover from plain have "lex_string (c # r) = map_option (\<lambda>(s, rest). (c # s, rest)) (lex_string r)"
      by (intro lex_string_plain) auto
    ultimately show ?thesis by simp
  qed (simp_all add: quote_unit_def unescape_def)
qed

lemma lex_string_surrogate:
  assumes "is_high (unat c) \<or> is_low (unat c)"
  shows "lex_string (c # r) = map_option (\<lambda>(s, rest). (c # s, rest)) (lex_string r)"
proof (rule lex_string_plain)
  from assms have "55296 \<le> unat c" by (auto simp: is_high_def is_low_def)
  then show "32 \<le> unat c" by simp
  from \<open>55296 \<le> unat c\<close> show "c \<noteq> 34" "c \<noteq> 92" by auto
qed

lemma lex_string_quote_units:
  "lex_string (quote_units s @ r) = map_option (\<lambda>(t, rest). (s @ t, rest)) (lex_string r)"
proof (induction s rule: quote_units.induct)
  case 1
  show ?case by (cases "lex_string r") auto
next
  case (2 h)
  show ?case by (cases "lex_string r") (auto simp: lex_string_quote_unit simp del: lex_string.simps)
next
  case (3 h l s)
  show ?case
  proof (cases "is_high (unat h) \<and> is_low (unat l)")
    case True
    then have q: "quote_units (h # l # s) = h # l # quote_units s" by simp
    from True have hh: "is_high (unat h) \<or> is_low (unat h)" and ll: "is_high (unat l) \<or> is_low (unat l)"
      by simp_all
    have "lex_string (quote_units (h # l # s) @ r)
        = map_option (\<lambda>(t, rest). (h # t, rest))
            (map_option (\<lambda>(t, rest). (l # t, rest)) (lex_string (quote_units s @ r)))"
      by (simp only: q append_Cons lex_string_surrogate [OF hh] lex_string_surrogate [OF ll])
    with 3(1) [OF True] show ?thesis by (cases "lex_string r") auto
  next
    case False
    then have q: "quote_units (h # l # s) = quote_unit h @ quote_units (l # s)" by auto
    have "lex_string (quote_units (h # l # s) @ r)
        = map_option (\<lambda>(t, rest). (h # t, rest)) (lex_string (quote_units (l # s) @ r))"
      by (simp only: q append_assoc lex_string_quote_unit)
    with 3(2) [OF False] show ?thesis by (cases "lex_string r") auto
  qed
qed

section \<open>The tokens of the text of an invoice\<close>

lemma lex_string_quoted: "lex_string (quote_units s @ 34 # rest) = Some (s, rest)"
  using lex_string_quote_units [of s "34 # rest"] by simp

lemma lex_quote: "lex (quote s @ rest) = map_option (Cons (TStr s)) (lex rest)"
  by (simp add: quote_def lex_string_quoted is_json_ws_def del: lex_string.simps)

lemma lex_punct:
  "lex (123 # r) = map_option (Cons TLBrace) (lex r)"
  "lex (125 # r) = map_option (Cons TRBrace) (lex r)"
  "lex (91 # r) = map_option (Cons TLBracket) (lex r)"
  "lex (93 # r) = map_option (Cons TRBracket) (lex r)"
  "lex (58 # r) = map_option (Cons TColon) (lex r)"
  "lex (44 # r) = map_option (Cons TComma) (lex r)"
  by (simp_all add: is_json_ws_def)

lemma lex_null: "lex (js ''null'' @ rest) = map_option (Cons TNull) (lex rest)"
  by (simp add: js_def is_json_ws_def is_digit_def)

lemma lex_number_hd:
  assumes "lex_number t = Some r"
  shows "\<exists>c cs. t = c # cs \<and> (c = 45 \<or> is_digit c)"
proof (cases t)
  case Nil
  with assms show ?thesis by (simp add: lex_number_def)
next
  case (Cons c cs)
  show ?thesis
  proof (cases "c = 45")
    case True
    with Cons show ?thesis by simp
  next
    case False
    with assms Cons have "takeWhile is_digit (c # cs) \<noteq> []"
      by (auto simp: lex_number_def Let_def split: if_splits)
    then have "is_digit c" by (auto split: if_splits)
    with Cons show ?thesis by simp
  qed
qed

lemma lex_of_number:
  assumes "lex_number t = Some (n, rest)"
  shows "lex t = map_option (Cons (TNum n)) (lex rest)"
proof -
  from lex_number_hd [OF assms] obtain c cs where t: "t = c # cs" and c: "c = 45 \<or> is_digit c"
    by blast
  from c have "48 \<le> unat c \<and> unat c \<le> 57 \<or> c = 45" by (auto simp: is_digit_def)
  then have "\<not> is_json_ws c" "c \<noteq> 123" "c \<noteq> 125" "c \<noteq> 91" "c \<noteq> 93" "c \<noteq> 58" "c \<noteq> 44" "c \<noteq> 34"
    by (auto simp: is_json_ws_def)
  with c assms show ?thesis by (simp add: t)
qed

lemma lex_json_number_tok:
  assumes "is_double n" and "delim rest"
  shows "lex (json_number n @ rest) = map_option (Cons (numtok n)) (lex rest)"
proof (cases "is_fin n")
  case True
  from lex_of_number [OF lex_json_number [OF assms(1) True assms(2)]] True
  show ?thesis by (simp add: numtok_def)
next
  case False
  then show ?thesis by (simp add: json_number_def numtok_def lex_null del: lex.simps)
qed

lemma lex_json_number_comma:
  "is_double n \<Longrightarrow> lex (json_number n @ 44 # rest) = map_option (Cons (numtok n)) (lex (44 # rest))"
  by (rule lex_json_number_tok) (simp_all add: delim_def)

lemma lex_json_number_brace:
  "is_double n \<Longrightarrow> lex (json_number n @ 125 # rest) = map_option (Cons (numtok n)) (lex (125 # rest))"
  by (rule lex_json_number_tok) (simp_all add: delim_def)

lemma lex_item_text:
  assumes "is_double (quantity it)" and "is_double (unitPrice it)"
  shows "lex (item_text it @ rest)
           = (case lex rest of None \<Rightarrow> None | Some ts \<Rightarrow> Some (item_tokens it @ ts))"
  using assms
  by (cases "lex rest")
    (simp_all add: item_text_def item_tokens_def lex_quote lex_punct lex_json_number_comma
      lex_json_number_brace del: lex.simps(2))

lemma join_comma_Cons: "join_comma (x # xs) = x @ concat (map (Cons 44) xs)"
  by (induction xs arbitrary: x) simp_all

lemma lex_more_items:
  assumes "list_all (\<lambda>it. is_double (quantity it) \<and> is_double (unitPrice it)) its"
  shows "lex (concat (map (Cons 44 \<circ> item_text) its) @ rest)
           = (case lex rest of None \<Rightarrow> None
              | Some ts \<Rightarrow> Some (concat (map (\<lambda>i. TComma # item_tokens i) its) @ ts))"
  using assms
proof (induction its)
  case Nil
  show ?case by (cases "lex rest") simp_all
next
  case (Cons a its)
  then show ?case
    by (cases "lex rest") (simp_all add: lex_punct lex_item_text del: lex.simps(2))
qed

lemma lex_items:
  assumes "list_all (\<lambda>it. is_double (quantity it) \<and> is_double (unitPrice it)) its"
  shows "lex (join_comma (map item_text its) @ rest)
           = (case lex rest of None \<Rightarrow> None | Some ts \<Rightarrow> Some (items_tokens its @ ts))"
proof (cases its)
  case Nil
  then show ?thesis by (cases "lex rest") (simp_all add: items_tokens_def)
next
  case (Cons a r)
  with assms have a: "is_double (quantity a)" "is_double (unitPrice a)"
    and r: "list_all (\<lambda>it. is_double (quantity it) \<and> is_double (unitPrice it)) r"
    by simp_all
  show ?thesis
    by (cases "lex rest")
      (simp_all add: Cons items_tokens_def join_comma_Cons lex_item_text [OF a] lex_more_items [OF r]
        del: lex.simps(2))
qed

lemma lex_invoice_text:
  assumes "doubles iv"
  shows "lex (invoice_text iv) = Some (invoice_tokens iv)"
proof -
  from assms have t: "is_double (taxRatePct iv)"
    and i: "list_all (\<lambda>it. is_double (quantity it) \<and> is_double (unitPrice it)) (items iv)"
    by (simp_all add: doubles_def)
  have "lex (join_comma (map item_text (items iv)) @ [93, 125])
      = Some (items_tokens (items iv) @ [TRBracket, TRBrace])"
    by (simp add: lex_items [OF i] lex_punct del: lex.simps(2))
  then show ?thesis
    by (simp add: invoice_text_def invoice_tokens_def lex_quote lex_punct
        lex_json_number_comma [OF t] del: lex.simps(2))
qed

section \<open>The text JSON.stringify writes for an invoice\<close>

lemma json_of_item: "json_of (js_of_item it) = Some (item_text it)"
  by (simp add: js_of_item_def json_fields_def item_text_def)

lemma json_of_items:
  "json_of (JArr (map js_of_item its)) = Some (91 # join_comma (map item_text its) @ [93])"
  by (simp add: json_of_item json_element_def comp_def)

lemma json_of_string: "is_string v \<Longrightarrow> json_of v = Some (quote (string_of v))"
  by (cases v) (simp_all add: is_string_def string_of_def)

lemma json_of_invoice:
  assumes "valid_invoice iv"
  shows "json_of (js_of_invoice iv) = Some (invoice_text iv)"
  using assms
  by (simp add: valid_invoice_def js_of_invoice_def json_fields_def invoice_text_def json_of_string
      json_of_items del: json_of.simps(6))

section \<open>The value JSON.parse reads from the tokens of an invoice\<close>

lemma run_tokens_append:
  "run_tokens s (a @ b) = (case run_tokens s a of None \<Rightarrow> None | Some s' \<Rightarrow> run_tokens s' b)"
  by (induction a arbitrary: s) (simp_all split: option.splits)

lemma run_single: "run_tokens s [t] = step_token s t"
  by (simp split: option.splits)

lemma step_value_numtok: "step_value (numtok n) st = push_value (numval n) st"
  by (simp add: numtok_def numval_def step_value_def)

lemma numtok_neq: "numtok n \<noteq> TRBracket" "numtok n \<noteq> TRBrace" "numtok n \<noteq> TComma" "numtok n \<noteq> TColon"
  by (simp_all add: numtok_def)

lemma step_open_object:
  "step_token (EValue, st, None) TLBrace = Some (EKeyOrClose, FObj [] None # st, None)"
  "step_token (EValueOrClose, st, None) TLBrace = Some (EKeyOrClose, FObj [] None # st, None)"
  by (simp_all add: step_token_def step_value_def)

lemma step_token_key:
  "step_token (EKeyOrClose, FObj fs None # st, None) (TStr k) = Some (EColon, FObj fs (Some k) # st, None)"
  "step_token (EKey, FObj fs None # st, None) (TStr k) = Some (EColon, FObj fs (Some k) # st, None)"
  by (simp_all add: step_token_def step_key_def)

lemma step_colon: "step_token (EColon, st, None) TColon = Some (EValue, st, None)"
  by (simp add: step_token_def)

lemma step_string:
  "step_token (EValue, FObj fs (Some k) # st, None) (TStr s)
     = Some (ECommaOrClose, FObj (obj_set k (JStr s) fs) None # st, None)"
  by (simp add: step_token_def step_value_def)

lemma step_number:
  "step_token (EValue, FObj fs (Some k) # st, None) (numtok n)
     = Some (ECommaOrClose, FObj (obj_set k (numval n) fs) None # st, None)"
  by (simp add: step_token_def step_value_numtok)

lemma step_comma:
  "step_token (ECommaOrClose, FObj fs None # st, None) TComma = Some (EKey, FObj fs None # st, None)"
  "step_token (ECommaOrClose, FArr vs # st, None) TComma = Some (EValue, FArr vs # st, None)"
  by (simp_all add: step_token_def)

lemma step_close_object:
  "step_token (ECommaOrClose, FObj fs None # st, None) TRBrace = push_value (JObj fs) st"
  by (simp add: step_token_def step_close_def)

lemma step_open_array:
  "step_token (EValue, st, None) TLBracket = Some (EValueOrClose, FArr [] # st, None)"
  by (simp add: step_token_def step_value_def)

lemma step_close_array:
  "step_token (EValueOrClose, FArr vs # st, None) TRBracket = push_value (JArr vs) st"
  "step_token (ECommaOrClose, FArr vs # st, None) TRBracket = push_value (JArr vs) st"
  by (simp_all add: step_token_def step_close_def)

lemmas steps = step_open_object step_token_key step_colon step_string step_number step_comma
  step_close_object step_open_array step_close_array

lemma run_item:
  assumes "e = EValue \<or> e = EValueOrClose"
  shows "run_tokens (e, FArr vs # st, None) (item_tokens it)
           = Some (ECommaOrClose, FArr (vs @ [read_item it]) # st, None)"
  using assms by (auto simp: item_tokens_def read_item_def steps js_def)

lemma run_more_items:
  "run_tokens (ECommaOrClose, FArr vs # st, None) (concat (map (\<lambda>i. TComma # item_tokens i) its))
     = Some (ECommaOrClose, FArr (vs @ map read_item its) # st, None)"
proof (induction its arbitrary: vs)
  case Nil
  show ?case by simp
next
  case (Cons a its)
  have "run_tokens (ECommaOrClose, FArr vs # st, None) (TComma # item_tokens a)
      = Some (ECommaOrClose, FArr (vs @ [read_item a]) # st, None)"
    by (simp add: step_comma run_item)
  then have "run_tokens (ECommaOrClose, FArr vs # st, None)
       ((TComma # item_tokens a) @ concat (map (\<lambda>i. TComma # item_tokens i) its))
      = Some (ECommaOrClose, FArr ((vs @ [read_item a]) @ map read_item its) # st, None)"
    by (simp only: run_tokens_append option.case Cons.IH)
  then show ?case by simp
qed

lemma run_items:
  "run_tokens (EValueOrClose, FArr [] # st, None) (items_tokens its @ [TRBracket])
     = push_value (JArr (map read_item its)) st"
proof (cases its)
  case Nil
  then show ?thesis by (simp add: items_tokens_def step_close_array run_single del: run_tokens.simps)
next
  case (Cons a r)
  have "run_tokens (EValueOrClose, FArr [] # st, None) (item_tokens a)
      = Some (ECommaOrClose, FArr ([] @ [read_item a]) # st, None)"
    by (rule run_item) simp
  then have "run_tokens (EValueOrClose, FArr [] # st, None)
       (item_tokens a @ concat (map (\<lambda>i. TComma # item_tokens i) r) @ [TRBracket])
      = push_value (JArr (read_item a # map read_item r)) st"
    by (simp only: run_tokens_append option.case run_more_items run_single)
      (simp add: step_close_array)
  then show ?thesis by (simp add: Cons items_tokens_def)
qed

lemma parse_invoice_tokens: "parse_tokens (invoice_tokens iv) = Some (read_invoice iv)"
proof -
  define hd_toks where "hd_toks =
     [TLBrace, TStr (js ''fromName''), TColon, TStr (string_of (fromName iv)), TComma,
      TStr (js ''fromAddress''), TColon, TStr (string_of (fromAddress iv)), TComma,
      TStr (js ''billToName''), TColon, TStr (string_of (billToName iv)), TComma,
      TStr (js ''billToAddress''), TColon, TStr (string_of (billToAddress iv)), TComma,
      TStr (js ''invoiceNumber''), TColon, TStr (string_of (invoiceNumber iv)), TComma,
      TStr (js ''issueDate''), TColon, TStr (string_of (issueDate iv)), TComma,
      TStr (js ''dueDate''), TColon, TStr (string_of (dueDate iv)), TComma,
      TStr (js ''currency''), TColon, TStr (string_of (currency iv)), TComma,
      TStr (js ''taxRatePct''), TColon, numtok (taxRatePct iv), TComma,
      TStr (js ''notes''), TColon, TStr (string_of (notes' iv)), TComma,
      TStr (js ''items''), TColon, TLBracket]"
  define fs where "fs =
     [(js ''fromName'', JStr (string_of (fromName iv))),
      (js ''fromAddress'', JStr (string_of (fromAddress iv))),
      (js ''billToName'', JStr (string_of (billToName iv))),
      (js ''billToAddress'', JStr (string_of (billToAddress iv))),
      (js ''invoiceNumber'', JStr (string_of (invoiceNumber iv))),
      (js ''issueDate'', JStr (string_of (issueDate iv))),
      (js ''dueDate'', JStr (string_of (dueDate iv))),
      (js ''currency'', JStr (string_of (currency iv))),
      (js ''taxRatePct'', numval (taxRatePct iv)),
      (js ''notes'', JStr (string_of (notes' iv)))]"
  have h: "run_tokens (EValue, [], None) hd_toks
      = Some (EValueOrClose, [FArr [], FObj fs (Some (js ''items''))], None)"
    by (simp add: hd_toks_def fs_def steps js_def)
  define mid where "mid = items_tokens (items iv) @ [TRBracket]"
  have i: "run_tokens (EValueOrClose, [FArr [], FObj fs (Some (js ''items''))], None) mid
      = Some (ECommaOrClose, [FObj (fs @ [(js ''items'', JArr (map read_item (items iv)))]) None], None)"
    by (simp add: mid_def run_items fs_def js_def)
  have "run_tokens (EValue, [], None) (hd_toks @ mid @ [TRBrace])
      = Some (EEnd, [], Some (JObj (fs @ [(js ''items'', JArr (map read_item (items iv)))])))"
    by (simp only: run_tokens_append h i option.case run_single) (simp add: step_close_object)
  moreover have "invoice_tokens iv = hd_toks @ mid @ [TRBrace]"
    by (simp add: invoice_tokens_def hd_toks_def mid_def)
  moreover have "read_invoice iv = JObj (fs @ [(js ''items'', JArr (map read_item (items iv)))])"
    by (simp add: read_invoice_def fs_def)
  ultimately show ?thesis by (simp add: parse_tokens_def)
qed

lemma JSON_parse_invoice_text:
  assumes "doubles iv"
  shows "JSON_parse (invoice_text iv) = Inr (read_invoice iv)"
  by (simp add: JSON_parse_def lex_invoice_text [OF assms] parse_invoice_tokens)

section \<open>The invoice normalizeInvoice makes of that value\<close>

lemma normalizeItem_read_item:
  "normalizeItem w (read_item it)
     = (it\<lparr>quantity := reread (Fin 1) (quantity it), unitPrice := reread (Fin 0) (unitPrice it)\<rparr>, w)"
  by (simp add: normalizeItem_def read_item_def opt_prop_def get_prop_def js_def numval_def
      reread_def)

lemma normalizeItems_read_item:
  "normalizeItems w (map read_item its)
     = (map (\<lambda>it. it\<lparr>quantity := reread (Fin 1) (quantity it),
                       unitPrice := reread (Fin 0) (unitPrice it)\<rparr>) its, w)"
  by (induction its) (simp_all add: normalizeItem_read_item)

lemma get_prop_read_invoice:
  "get_prop (read_invoice iv) (js ''fromName'') = JStr (string_of (fromName iv))"
  "get_prop (read_invoice iv) (js ''fromAddress'') = JStr (string_of (fromAddress iv))"
  "get_prop (read_invoice iv) (js ''billToName'') = JStr (string_of (billToName iv))"
  "get_prop (read_invoice iv) (js ''billToAddress'') = JStr (string_of (billToAddress iv))"
  "get_prop (read_invoice iv) (js ''invoiceNumber'') = JStr (string_of (invoiceNumber iv))"
  "get_prop (read_invoice iv) (js ''issueDate'') = JStr (string_of (issueDate iv))"
  "get_prop (read_invoice iv) (js ''dueDate'') = JStr (string_of (dueDate iv))"
  "get_prop (read_invoice iv) (js ''currency'') = JStr (string_of (currency iv))"
  "get_prop (read_invoice iv) (js ''taxRatePct'') = numval (taxRatePct iv)"
  "get_prop (read_invoice iv) (js ''notes'') = JStr (string_of (notes' iv))"
  "get_prop (read_invoice iv) (js ''items'') = JArr (map read_item (items iv))"
  by (simp_all add: get_prop_def read_invoice_def js_def)

lemma normalizeInvoice_read_invoice:
  assumes "valid_invoice iv"
  shows "normalizeInvoice w (read_invoice iv) = Inr (after_round_trip iv, w)"
proof -
  have obj: "read_invoice iv \<noteq> JUndefined" "read_invoice iv \<noteq> JNull"
    by (simp_all add: read_invoice_def)
  have s: "nullish (JStr (string_of v)) d = v" if "is_string v" for v d
    using that by (cases v) (simp_all add: is_string_def string_of_def nullish_def)
  have t: "(case numval n of JNum x \<Rightarrow> x | _ \<Rightarrow> Fin 0) = reread (Fin 0) n" for n
    by (simp add: numval_def reread_def)
  from assms have v: "is_string (fromName iv)" "is_string (fromAddress iv)" "is_string (billToName iv)"
    "is_string (billToAddress iv)" "is_string (invoiceNumber iv)" "is_string (issueDate iv)"
    "is_string (dueDate iv)" "is_string (currency iv)" "is_string (notes' iv)"
    by (simp_all add: valid_invoice_def)
  have "normalizeInvoice w (read_invoice iv) =
     Inr (\<lparr>fromName = fromName iv, fromAddress = fromAddress iv, billToName = billToName iv,
           billToAddress = billToAddress iv, invoiceNumber = invoiceNumber iv,
           issueDate = issueDate iv, dueDate = dueDate iv, currency = currency iv,
           taxRatePct = reread (Fin 0) (taxRatePct iv), notes' = notes' iv,
           items = map (\<lambda>it. it\<lparr>quantity := reread (Fin 1) (quantity it),
                                   unitPrice := reread (Fin 0) (unitPrice it)\<rparr>) (items iv)\<rparr>, w)"
    unfolding normalizeInvoice_def using obj
    by (simp add: get_prop_read_invoice normalizeItems_read_item s [OF v(1)] s [OF v(2)] s [OF v(3)]
        s [OF v(4)] s [OF v(5)] s [OF v(6)] s [OF v(7)] s [OF v(8)] s [OF v(9)] t)
  also have "\<lparr>fromName = fromName iv, fromAddress = fromAddress iv, billToName = billToName iv,
           billToAddress = billToAddress iv, invoiceNumber = invoiceNumber iv,
           issueDate = issueDate iv, dueDate = dueDate iv, currency = currency iv,
           taxRatePct = reread (Fin 0) (taxRatePct iv), notes' = notes' iv,
           items = map (\<lambda>it. it\<lparr>quantity := reread (Fin 1) (quantity it),
                                   unitPrice := reread (Fin 0) (unitPrice it)\<rparr>) (items iv)\<rparr>
      = after_round_trip iv"
    by (cases iv) (simp add: after_round_trip_def)
  finally show ?thesis .
qed

section \<open>Base64 there and back\<close>

lemma replaceAll_one: "replaceAll c [d] s = map (\<lambda>x. if x = c then d else x) s"
  by (induction s) (simp_all add: replaceAll_def)

lemma replaceAll_none: "replaceAll c [] s = filter (\<lambda>x. x \<noteq> c) s"
  by (induction s) (simp_all add: replaceAll_def)

lemma unat_b64_char:
  "unat (b64_char n) = (if n < 26 then 65 + n else if n < 52 then 71 + n
                        else if n < 62 then n - 4 else if n = 62 then 43 else 47)"
proof -
  define m where "m = (if n < 26 then 65 + n else if n < 52 then 71 + n
                        else if n < 62 then n - 4 else if n = 62 then 43 else 47)"
  have "unat (of_nat m :: 16 word) = m mod 2 ^ LENGTH(16)" by (rule unat_of_nat)
  also have "\<dots> = m" by (simp add: m_def)
  finally show ?thesis by (simp only: b64_char_def m_def)
qed

lemma b64_index_b64_char: "n < 64 \<Longrightarrow> b64_index (b64_char n) = Some n"
  by (simp add: b64_index_def Let_def unat_b64_char) presburger

lemma b64_char_plain:
  "b64_char n \<noteq> 61" "b64_char n \<noteq> 45" "b64_char n \<noteq> 95" "\<not> is_ascii_ws (b64_char n)"
proof -
  have u: "unat (b64_char n) \<notin> {61, 45, 95, 9, 10, 12, 13, 32}"
    by (simp add: unat_b64_char) presburger
  then show "b64_char n \<noteq> 61" "b64_char n \<noteq> 45" "b64_char n \<noteq> 95" by auto
  from u show "\<not> is_ascii_ws (b64_char n)" by (auto simp: is_ascii_ws_def)
qed

lemma b64_encode_sextets:
  "b64_encode bs = map b64_char (sextets bs) @ slice (js ''==='') ((length (sextets bs) + 3) mod 4)"
proof -
  have m: "(7 + l) mod 4 = (l + 3) mod 4" for l :: nat by presburger
  show ?thesis
    by (induction bs rule: sextets.induct) (simp_all add: slice_def js_def m)
qed

lemma length_sextets: "length (sextets bs) mod 4 \<noteq> 1"
  by (induction bs rule: sextets.induct) simp_all

lemma sextets_bound: "\<forall>b\<in>set bs. b < 256 \<Longrightarrow> \<forall>n\<in>set (sextets bs). n < 64"
  by (induction bs rule: sextets.induct) auto

lemma b64_decode_sextets: "\<forall>b\<in>set bs. b < 256 \<Longrightarrow> b64_decode (sextets bs) = bs"
  by (induction bs rule: sextets.induct) auto

lemma those_b64_index:
  "\<forall>n\<in>set ns. n < 64 \<Longrightarrow> those (map b64_index (map b64_char ns)) = Some ns"
  by (induction ns) (simp_all add: b64_index_b64_char)

lemma strip_padding_encoded:
  assumes "\<forall>c\<in>set core. c \<noteq> 61" and "length core mod 4 \<noteq> 1"
  shows "strip_padding (core @ slice (js ''==='') ((length core + 3) mod 4)) = core"
proof -
  have l: "core \<noteq> [] \<Longrightarrow> last core \<noteq> 61" using assms(1) last_in_set by blast
  consider (zero) "length core mod 4 = 0" | (two) "length core mod 4 = 2"
    | (three) "length core mod 4 = 3"
    using assms(2) by (metis One_nat_def less_Suc_eq mod_less_divisor numeral_2_eq_2 numeral_3_eq_3 zero_less_numeral less_one not_less_zero numeral_Bit0 Suc_lessI add_2_eq_Suc' mod_Suc_eq numeral_code(2))
  then show ?thesis
  proof cases
    case zero
    then have "(length core + 3) mod 4 = 3" by presburger
    then have p: "slice (js ''==='') ((length core + 3) mod 4) = []"
      by (simp add: slice_def js_def)
    have "strip_padding (core @ []) = core"
      using zero l by (cases "core = []") (simp_all add: strip_padding_def)
    then show ?thesis by (simp only: p)
  next
    case two
    then have "(length core + 3) mod 4 = 1" by presburger
    then have p: "slice (js ''==='') ((length core + 3) mod 4) = [61, 61]"
      by (simp add: slice_def js_def)
    have "length (core @ [61, 61]) mod 4 = 0" using two by simp presburger
    then have "strip_padding (core @ [61, 61]) = core"
      by (simp add: strip_padding_def butlast_append)
    then show ?thesis by (simp only: p)
  next
    case three
    then have "(length core + 3) mod 4 = 2" by presburger
    then have p: "slice (js ''==='') ((length core + 3) mod 4) = [61]"
      by (simp add: slice_def js_def)
    from three have ne: "core \<noteq> []" by auto
    have "length (core @ [61]) mod 4 = 0" using three by simp presburger
    then have "strip_padding (core @ [61]) = core"
      using l [OF ne] ne by (simp add: strip_padding_def butlast_append)
    then show ?thesis by (simp only: p)
  qed
qed

lemma atob_b64_encode:
  assumes "\<forall>b\<in>set bs. b < 256"
  shows "atob (b64_encode bs) = Inr (map of_nat bs)"
proof -
  define core where "core = map b64_char (sextets bs)"
  define padded where "padded = core @ slice (js ''==='') ((length core + 3) mod 4)"
  have e: "b64_encode bs = padded"
    by (simp add: padded_def core_def b64_encode_sextets)
  have c61: "\<forall>c\<in>set core. c \<noteq> 61" by (auto simp: core_def b64_char_plain)
  have len: "length core mod 4 \<noteq> 1" using length_sextets [of bs] by (simp add: core_def)
  have ws: "filter (\<lambda>c. \<not> is_ascii_ws c) padded = padded"
  proof -
    have "\<forall>c\<in>set (slice (js ''==='') ((length core + 3) mod 4)). \<not> is_ascii_ws c"
      by (auto simp: slice_def js_def is_ascii_ws_def dest: in_set_dropD)
    moreover have "\<forall>c\<in>set core. \<not> is_ascii_ws c" by (auto simp: core_def b64_char_plain)
    ultimately show ?thesis by (simp add: padded_def)
  qed
  have sp: "strip_padding padded = core"
    unfolding padded_def by (rule strip_padding_encoded [OF c61 len])
  have th: "those (map b64_index core) = Some (sextets bs)"
    unfolding core_def by (rule those_b64_index [OF sextets_bound [OF assms]])
  show ?thesis
    unfolding atob_def e ws sp Let_def
    using len by (simp add: th b64_decode_sextets [OF assms])
qed

lemma url_safe_there_and_back:
  assumes "\<forall>b\<in>set bs. b < 256"
  defines "tok \<equiv> replaceAll 61 [] (replaceAll 47 [95] (replaceAll 43 [45] (b64_encode bs)))"
  shows "replaceAll 95 [47] (replaceAll 45 [43] tok) @ slice (js ''==='') ((length tok + 3) mod 4)
           = b64_encode bs"
proof -
  define core where "core = map b64_char (sextets bs)"
  define pad where "pad = slice (js ''==='') ((length core + 3) mod 4)"
  have e: "b64_encode bs = core @ pad"
    by (simp add: pad_def core_def b64_encode_sextets)
  have p61: "\<forall>c\<in>set pad. c = 61"
    by (auto simp: pad_def slice_def js_def dest: in_set_dropD)
  have c: "\<forall>c\<in>set core. c \<noteq> 61 \<and> c \<noteq> 45 \<and> c \<noteq> 95"
    by (auto simp: core_def b64_char_plain)
  have t: "tok = map (\<lambda>x. if x = 47 then 95 else x) (map (\<lambda>x. if x = 43 then 45 else x) core)"
  proof -
    have "filter (\<lambda>x. x \<noteq> 61) (map (\<lambda>x. if x = 47 then 95 else x) (map (\<lambda>x. if x = 43 then 45 else x) pad)) = []"
      using p61 by (induction pad) auto
    moreover have "filter (\<lambda>x. x \<noteq> 61) (map (\<lambda>x. if x = 47 then 95 else x) (map (\<lambda>x. if x = 43 then 45 else x) core))
        = map (\<lambda>x. if x = 47 then 95 else x) (map (\<lambda>x. if x = 43 then 45 else x) core)"
      using c by (induction core) auto
    ultimately show ?thesis
      by (simp add: tok_def e replaceAll_one replaceAll_none)
  qed
  have unurl: "replaceAll 95 [47] (replaceAll 45 [43] tok) = core"
    unfolding t replaceAll_one using c by (induction core) auto
  have "length tok = length core" by (simp add: t)
  with unurl e show ?thesis by (simp add: pad_def)
qed

section \<open>UTF-8 there and back\<close>

lemma mod_64: "r < 64 \<Longrightarrow> (128 + r) mod 64 = (r::nat)"
  using mod_mult_self4 [of 64 2 r] by simp

lemma mod_32: "q < 32 \<Longrightarrow> (192 + q) mod 32 = (q::nat)"
  using mod_mult_self4 [of 32 6 q] by simp

lemma mod_16: "a < 16 \<Longrightarrow> (224 + a) mod 16 = (a::nat)"
  using mod_mult_self4 [of 16 14 a] by simp

lemma mod_8: "a < 5 \<Longrightarrow> (240 + a) mod 8 = (a::nat)"
  using mod_mult_self4 [of 8 30 a] by simp

lemma decode_one: "b \<le> 127 \<Longrightarrow> utf8_decode 0 0 128 191 (b # bs) = b # utf8_decode 0 0 128 191 bs"
  by (subst utf8_decode.simps(2)) (simp del: utf8_decode.simps)

lemma decode_continue:
  assumes "lo \<le> 128 + r" and "128 + r \<le> hi" and "r < 64"
  shows "utf8_decode cp (Suc (Suc n)) lo hi ((128 + r) # bs)
           = utf8_decode (cp * 64 + r) (Suc n) 128 191 bs"
    and "utf8_decode cp (Suc 0) lo hi ((128 + r) # bs)
           = (cp * 64 + r) # utf8_decode 0 0 128 191 bs"
proof -
  from assms(3) have m: "(128 + r) mod 64 = r" by (rule mod_64)
  from assms(1,2) m show "utf8_decode cp (Suc (Suc n)) lo hi ((128 + r) # bs)
           = utf8_decode (cp * 64 + r) (Suc n) 128 191 bs"
    by (subst utf8_decode.simps(2)) (simp del: utf8_decode.simps)
  from assms(1,2) m show "utf8_decode cp (Suc 0) lo hi ((128 + r) # bs)
           = (cp * 64 + r) # utf8_decode 0 0 128 191 bs"
    by (subst utf8_decode.simps(2)) (simp del: utf8_decode.simps)
qed

lemma decode_two:
  assumes "2 \<le> q" and "q < 32" and "r < 64"
  shows "utf8_decode 0 0 128 191 ((192 + q) # (128 + r) # bs)
           = (q * 64 + r) # utf8_decode 0 0 128 191 bs"
proof -
  from assms(2) have m: "(192 + q) mod 32 = q" by (rule mod_32)
  from assms(1,2) have "utf8_decode 0 0 128 191 ((192 + q) # (128 + r) # bs)
      = utf8_decode q (Suc 0) 128 191 ((128 + r) # bs)"
    by (subst utf8_decode.simps(2)) (simp add: m del: utf8_decode.simps)
  also have "\<dots> = (q * 64 + r) # utf8_decode 0 0 128 191 bs"
    using assms(3) by (intro decode_continue(2)) simp_all
  finally show ?thesis .
qed

lemma decode_three:
  assumes "a < 16" and "m < 64" and "r < 64" and "a = 0 \<longrightarrow> 32 \<le> m" and "a = 13 \<longrightarrow> m < 32"
  shows "utf8_decode 0 0 128 191 ((224 + a) # (128 + m) # (128 + r) # bs)
           = ((a * 64 + m) * 64 + r) # utf8_decode 0 0 128 191 bs"
proof -
  from assms(1) have md: "(224 + a) mod 16 = a" by (rule mod_16)
  define lo :: nat where "lo = (if 224 + a = 224 then 160 else 128)"
  define hi :: nat where "hi = (if 224 + a = 237 then 159 else 191)"
  from assms(1) have "utf8_decode 0 0 128 191 ((224 + a) # (128 + m) # (128 + r) # bs)
      = utf8_decode a (Suc (Suc 0)) lo hi ((128 + m) # (128 + r) # bs)"
    by (subst utf8_decode.simps(2)) (simp add: md lo_def hi_def numeral_2_eq_2 del: utf8_decode.simps)
  also have "\<dots> = utf8_decode (a * 64 + m) (Suc 0) 128 191 ((128 + r) # bs)"
    using assms(2,4,5) by (intro decode_continue(1)) (auto simp: lo_def hi_def)
  also have "\<dots> = ((a * 64 + m) * 64 + r) # utf8_decode 0 0 128 191 bs"
    using assms(3) by (intro decode_continue(2)) simp_all
  finally show ?thesis .
qed

lemma decode_four:
  assumes "a < 5" and "m < 64" and "n < 64" and "r < 64" and "a = 0 \<longrightarrow> 16 \<le> m"
    and "a = 4 \<longrightarrow> m < 16"
  shows "utf8_decode 0 0 128 191 ((240 + a) # (128 + m) # (128 + n) # (128 + r) # bs)
           = (((a * 64 + m) * 64 + n) * 64 + r) # utf8_decode 0 0 128 191 bs"
proof -
  from assms(1) have md: "(240 + a) mod 8 = a" by (rule mod_8)
  define lo :: nat where "lo = (if 240 + a = 240 then 144 else 128)"
  define hi :: nat where "hi = (if 240 + a = 244 then 143 else 191)"
  from assms(1) have "utf8_decode 0 0 128 191 ((240 + a) # (128 + m) # (128 + n) # (128 + r) # bs)
      = utf8_decode a (Suc (Suc (Suc 0))) lo hi ((128 + m) # (128 + n) # (128 + r) # bs)"
    by (subst utf8_decode.simps(2)) (simp add: md lo_def hi_def numeral_3_eq_3 del: utf8_decode.simps)
  also have "\<dots> = utf8_decode (a * 64 + m) (Suc (Suc 0)) 128 191 ((128 + n) # (128 + r) # bs)"
    using assms(2,5,6) by (intro decode_continue(1)) (auto simp: lo_def hi_def)
  also have "\<dots> = utf8_decode ((a * 64 + m) * 64 + n) (Suc 0) 128 191 ((128 + r) # bs)"
    using assms(3) by (intro decode_continue(1)) simp_all
  also have "\<dots> = (((a * 64 + m) * 64 + n) * 64 + r) # utf8_decode 0 0 128 191 bs"
    using assms(4) by (intro decode_continue(2)) simp_all
  finally show ?thesis .
qed

lemma utf8_decode_utf8_of:
  assumes "scalar_value cp"
  shows "utf8_decode 0 0 128 191 (utf8_of cp @ bs) = cp # utf8_decode 0 0 128 191 bs"
proof -
  define q where "q = cp div 64"
  define r where "r = cp mod 64"
  define a where "a = q div 64"
  define m where "m = q mod 64"
  define t where "t = a div 64"
  define n where "n = a mod 64"
  have cp: "cp = q * 64 + r" and r: "r < 64" by (simp_all add: q_def r_def)
  have q: "q = a * 64 + m" and m: "m < 64" by (simp_all add: a_def m_def)
  have a: "a = t * 64 + n" and n: "n < 64" by (simp_all add: t_def n_def)
  have d1: "cp div 4096 = a" unfolding a_def q_def by (simp add: div_mult2_eq [symmetric])
  have d2: "cp div 262144 = t" unfolding t_def a_def q_def by (simp add: div_mult2_eq [symmetric])
  from assms have b: "cp < 1114112" and ns: "\<not> (55296 \<le> cp \<and> cp \<le> 57343)"
    by (auto simp: scalar_value_def is_high_def is_low_def)
  consider (one) "cp < 128" | (two) "128 \<le> cp" "cp < 2048" | (three) "2048 \<le> cp" "cp < 65536"
    | (four) "65536 \<le> cp"
    by linarith
  then show ?thesis
  proof cases
    case one
    then show ?thesis by (simp add: utf8_of_def decode_one del: utf8_decode.simps)
  next
    case two
    then have u: "utf8_of cp = [192 + q, 128 + r]" by (simp add: utf8_of_def q_def r_def)
    from two cp r have "2 \<le> q" "q < 32" by linarith+
    from decode_two [OF this r, of bs] show ?thesis
      by (simp add: u cp [symmetric] del: utf8_decode.simps)
  next
    case three
    then have u: "utf8_of cp = [224 + a, 128 + m, 128 + r]"
      by (simp add: utf8_of_def d1 q_def [symmetric] m_def [symmetric] r_def [symmetric])
    from three cp q r m have "a < 16" by linarith
    moreover from three cp q r m have "a = 0 \<longrightarrow> 32 \<le> m" by linarith
    moreover from three cp q r m ns have "a = 13 \<longrightarrow> m < 32" by linarith
    ultimately have "utf8_decode 0 0 128 191 ((224 + a) # (128 + m) # (128 + r) # bs)
           = ((a * 64 + m) * 64 + r) # utf8_decode 0 0 128 191 bs"
      using m r by (intro decode_three) simp_all
    then show ?thesis by (simp add: u cp [symmetric] q [symmetric] del: utf8_decode.simps)
  next
    case four
    then have u: "utf8_of cp = [240 + t, 128 + n, 128 + m, 128 + r]"
      by (simp add: utf8_of_def d1 d2 q_def [symmetric] m_def [symmetric] r_def [symmetric]
          n_def [symmetric])
    from four b cp q a r m n have "t < 5" by linarith
    moreover from four cp q a r m n have "t = 0 \<longrightarrow> 16 \<le> n" by linarith
    moreover from b cp q a r m n have "t = 4 \<longrightarrow> n < 16" by linarith
    ultimately have "utf8_decode 0 0 128 191 ((240 + t) # (128 + n) # (128 + m) # (128 + r) # bs)
           = (((t * 64 + n) * 64 + m) * 64 + r) # utf8_decode 0 0 128 191 bs"
      using m n r by (intro decode_four) simp_all
    then show ?thesis
      by (simp add: u cp [symmetric] q [symmetric] a [symmetric] del: utf8_decode.simps)
  qed
qed

lemma utf8_decode_concat:
  "\<forall>cp\<in>set cps. scalar_value cp \<Longrightarrow> utf8_decode 0 0 128 191 (concat (map utf8_of cps)) = cps"
  by (induction cps) (simp_all add: utf8_decode_utf8_of del: utf8_decode.simps(2))

lemma utf8_of_bytes:
  assumes "scalar_value cp"
  shows "\<forall>b\<in>set (utf8_of cp). b < 256"
proof -
  from assms have b: "cp < 1114112" by (simp add: scalar_value_def)
  have "cp div 64 mod 64 < 64" "cp mod 64 < 64" "cp div 4096 mod 64 < 64" by simp_all
  moreover from b have "cp div 262144 < 5" by simp
  moreover have "cp < 65536 \<Longrightarrow> cp div 4096 < 16" by simp
  moreover have "cp < 2048 \<Longrightarrow> cp div 64 < 32" by simp
  ultimately show ?thesis by (auto simp: utf8_of_def)
qed

lemma scalars_wf16:
  "wf16 us \<Longrightarrow> \<forall>u\<in>set us. u < 65536
     \<Longrightarrow> (\<forall>cp\<in>set (scalars us). scalar_value cp) \<and> concat (map utf16_of (scalars us)) = us"
proof (induction us rule: wf16.induct)
  case 1
  show ?case by simp
next
  case (2 h)
  then show ?case by (simp add: scalar_value_def utf16_of_def)
next
  case (3 h l r)
  show ?case
  proof (cases "is_high h")
    case True
    with 3 have l: "is_low l" and w: "wf16 r" and b: "\<forall>u\<in>set r. u < 65536" by simp_all
    define x where "x = h - 55296"
    define y where "y = l - 56320"
    from True have hx: "h = 55296 + x" "x < 1024" unfolding x_def is_high_def by linarith+
    from l have ly: "l = 56320 + y" "y < 1024" unfolding y_def is_low_def by linarith+
    have s: "scalars (h # l # r) = (65536 + x * 1024 + y) # scalars r"
      using True l by (simp add: x_def y_def)
    from hx ly have sv: "scalar_value (65536 + x * 1024 + y)"
      by (simp add: scalar_value_def is_high_def is_low_def)
    from ly have "(x * 1024 + y) div 1024 = x" "(x * 1024 + y) mod 1024 = y" by simp_all
    then have u: "utf16_of (65536 + x * 1024 + y) = [h, l]"
      by (simp add: utf16_of_def hx ly)
    from "3.IH"(1) [OF True w b] sv u show ?thesis by (simp only: s) simp
  next
    case False
    with 3 have nl: "\<not> is_low h" and w: "wf16 (l # r)" and b: "\<forall>u\<in>set (l # r). u < 65536"
      and h: "h < 65536"
      by simp_all
    have s: "scalars (h # l # r) = h # scalars (l # r)" using False nl by simp
    from False nl h have sv: "scalar_value h" by (simp add: scalar_value_def)
    from h have u: "utf16_of h = [h]" by (simp add: utf16_of_def)
    from "3.IH"(2) [OF False w b] sv u show ?thesis by (simp only: s) simp
  qed
qed

lemma scalars_first:
  assumes "wf16 (c # us)" and "c \<noteq> 65279" and "c < 65536"
  shows "strip_bom (scalars (c # us)) = scalars (c # us)"
proof (cases us)
  case Nil
  with assms show ?thesis by (simp add: strip_bom_def)
next
  case (Cons l r)
  show ?thesis
  proof (cases "is_high c")
    case True
    with assms Cons have "is_low l" by simp
    with True Cons show ?thesis by (simp add: strip_bom_def)
  next
    case False
    with assms Cons have "\<not> is_low c" by simp
    with False Cons assms(2) show ?thesis by (simp add: strip_bom_def)
  qed
qed

section \<open>The text of an invoice is well-formed UTF-16\<close>

lemma wf16_append: "wf16 a \<Longrightarrow> wf16 b \<Longrightarrow> wf16 (a @ b)"
proof (induction a rule: wf16.induct)
  case 1
  then show ?case by simp
next
  case (2 h)
  then show ?case by (cases b) simp_all
next
  case (3 h l r)
  then show ?case by (cases "is_high h") simp_all
qed

lemma well_formed_Nil: "well_formed []"
  by (simp add: well_formed_def)

lemma well_formed_append: "well_formed a \<Longrightarrow> well_formed b \<Longrightarrow> well_formed (a @ b)"
  by (simp add: well_formed_def wf16_append)

lemma well_formed_Cons:
  assumes "unat c < 55296" and "well_formed t"
  shows "well_formed (c # t)"
proof -
  from assms(1) have "wf16 [unat c]" by (simp add: is_high_def is_low_def)
  from wf16_append [OF this assms(2) [unfolded well_formed_def]] show ?thesis
    by (simp add: well_formed_def)
qed

lemma well_formed_ascii: "\<forall>c\<in>set t. unat c < 128 \<Longrightarrow> well_formed t"
  by (induction t) (simp_all add: well_formed_Nil well_formed_Cons)

lemma well_formed_pair:
  assumes "is_high (unat h)" and "is_low (unat l)" and "well_formed t"
  shows "well_formed (h # l # t)"
  using assms by (simp add: well_formed_def)

lemma well_formed_quote_unit: "well_formed (quote_unit c)"
proof (cases "unat c < 32 \<or> is_high (unat c) \<or> is_low (unat c)")
  case True
  have h: "d < 16 \<Longrightarrow> unat (hex_digit d) < 128" for d
    by (simp add: unat_hex_digit)
  have "unat c < 65536" using unsigned_less [of c] by simp
  then have "unat c div 4096 < 16" by simp
  with h have "\<forall>x\<in>set (unicode_escape (unat c)). unat x < 128"
    by (simp add: unicode_escape_def)
  with True have "\<forall>x\<in>set (quote_unit c). unat x < 128"
    by (auto simp: quote_unit_def)
  then show ?thesis by (rule well_formed_ascii)
next
  case False
  then have "unat c < 55296 \<or> 57343 < unat c" by (auto simp: is_high_def is_low_def)
  then have w: "wf16 [unat c]" by (auto simp: is_high_def is_low_def)
  have "\<forall>x\<in>set [8, 98, 9, 116, 10, 110, 12, 102, 13, 114, 34, 92 :: 16 word]. unat x < 128" by simp
  with w False show ?thesis
    by (auto simp: quote_unit_def well_formed_def is_high_def is_low_def)
qed

lemma well_formed_quote_units: "well_formed (quote_units s)"
proof (induction s rule: quote_units.induct)
  case 1
  show ?case by (simp add: well_formed_Nil)
next
  case (2 h)
  show ?case by (simp add: well_formed_quote_unit)
next
  case (3 h l r)
  show ?case
  proof (cases "is_high (unat h) \<and> is_low (unat l)")
    case True
    with 3(1) [OF True] show ?thesis by (simp add: well_formed_pair)
  next
    case False
    then have "quote_units (h # l # r) = quote_unit h @ quote_units (l # r)" by auto
    with 3(2) [OF False] show ?thesis
      by (simp only: well_formed_append well_formed_quote_unit)
  qed
qed

lemma well_formed_quote: "well_formed (quote s)"
  unfolding quote_def
  by (intro well_formed_Cons well_formed_append well_formed_quote_units well_formed_Nil) simp_all

lemma ascii_digit: "is_digit c \<Longrightarrow> unat c < 128"
  by (simp add: is_digit_def)

lemma ascii_format:
  assumes "0 < s"
  shows "\<forall>c\<in>set (format_digits (digits_of s) n). unat c < 128"
proof -
  define ds where "ds = digits_of s"
  from assms digits_of_props [of s] have ne: "ds \<noteq> []" and d: "\<forall>c\<in>set ds. unat c < 128"
    by (auto simp: ds_def ascii_digit)
  from digits_of_props [of "\<bar>n - 1\<bar>"] have e: "\<forall>c\<in>set (digits_of \<bar>n - 1\<bar>). unat c < 128"
    by (auto simp: ascii_digit)
  from d have t: "\<forall>c\<in>set (take k ds). unat c < 128" for k by (meson in_set_takeD)
  from d have dr: "\<forall>c\<in>set (drop k ds). unat c < 128" for k by (meson in_set_dropD)
  from d ne have h: "unat (hd ds) < 128" by simp
  from d ne have tl: "\<forall>c\<in>set (tl ds). unat c < 128" by (meson list.set_sel(2))
  show ?thesis
    unfolding ds_def [symmetric] format_digits_def Let_def
    using d e t dr h tl by auto
qed

lemma ascii_positive:
  assumes "0 < x" and "fl x = Fin x"
  shows "\<forall>c\<in>set (positive_to_string x). unat c < 128"
proof -
  from shortest_double [OF assms] obtain s e where "shortest x = Some (s, e)" "0 < s" by blast
  with ascii_format [of s] show ?thesis by (simp add: positive_to_string_def)
qed

lemma ascii_json_number:
  assumes "is_double n"
  shows "\<forall>c\<in>set (json_number n). unat c < 128"
proof (cases n)
  case (Fin r)
  with assms have d: "fl r = Fin r" by (simp add: is_double_def)
  consider "r = 0" | "0 < r" | "r < 0" by linarith
  then show ?thesis
  proof cases
    case 1
    with Fin show ?thesis by (simp add: json_number_def is_fin_def num_to_string_def js_def)
  next
    case 2
    with Fin ascii_positive [OF 2 d] show ?thesis
      by (simp add: json_number_def is_fin_def num_to_string_def)
  next
    case 3
    then have "r \<noteq> 0" by simp
    from fl_minus [OF d this] 3 have "\<forall>c\<in>set (positive_to_string (- r)). unat c < 128"
      by (intro ascii_positive) simp_all
    with 3 Fin show ?thesis by (simp add: json_number_def is_fin_def num_to_string_def)
  qed
qed (simp_all add: json_number_def is_fin_def num_to_string_def js_def)

lemma well_formed_json_number: "is_double n \<Longrightarrow> well_formed (json_number n)"
  by (rule well_formed_ascii [OF ascii_json_number])

lemma well_formed_item_text:
  assumes "is_double (quantity it)" and "is_double (unitPrice it)"
  shows "well_formed (item_text it)"
  unfolding item_text_def
  by (intro well_formed_Cons well_formed_append well_formed_quote well_formed_Nil
      well_formed_json_number assms) simp_all

lemma well_formed_more_items:
  assumes "list_all (\<lambda>it. is_double (quantity it) \<and> is_double (unitPrice it)) its"
  shows "well_formed (concat (map (Cons 44 \<circ> item_text) its))"
  using assms
  by (induction its) (simp_all add: well_formed_Nil well_formed_Cons well_formed_append
      well_formed_item_text)

lemma well_formed_items:
  assumes "list_all (\<lambda>it. is_double (quantity it) \<and> is_double (unitPrice it)) its"
  shows "well_formed (join_comma (map item_text its))"
proof (cases its)
  case Nil
  then show ?thesis by (simp add: well_formed_Nil)
next
  case (Cons a r)
  with assms have "well_formed (item_text a)" "well_formed (concat (map (Cons 44 \<circ> item_text) r))"
    by (simp_all add: well_formed_item_text well_formed_more_items)
  then have "well_formed (item_text a @ concat (map (Cons 44 \<circ> item_text) r))"
    by (rule well_formed_append)
  then show ?thesis by (simp add: Cons join_comma_Cons)
qed

lemma well_formed_invoice_text:
  assumes "doubles iv"
  shows "well_formed (invoice_text iv)"
proof -
  from assms have t: "is_double (taxRatePct iv)"
    and i: "list_all (\<lambda>it. is_double (quantity it) \<and> is_double (unitPrice it)) (items iv)"
    by (simp_all add: doubles_def)
  have e: "well_formed [93, 125]" by (rule well_formed_ascii) simp
  show ?thesis
    unfolding invoice_text_def
    by (intro well_formed_Cons well_formed_append well_formed_quote e
        well_formed_json_number [OF t] well_formed_items [OF i]) simp_all
qed

section \<open>The token there and back\<close>

lemma unat_byte_up: "b < 256 \<Longrightarrow> unat (ucast (of_nat b :: 8 word) :: 16 word) = b"
  by (simp add: unsigned_ucast_eq unat_of_nat take_bit_eq_mod)

lemma unat_byte_down: "b < 256 \<Longrightarrow> unat (ucast (of_nat b :: 16 word) :: 8 word) = b"
  by (simp add: unsigned_ucast_eq unat_of_nat take_bit_eq_mod)

lemma base64url_there_and_back:
  assumes wf: "well_formed (c # t)" and c: "c \<noteq> 65279"
  shows "\<exists>tok. base64UrlEncodeUtf8 (c # t) = Inr tok \<and> base64UrlDecodeUtf8 tok = Inr (c # t)"
proof -
  define us where "us = map unat (c # t)"
  define B where "B = concat (map utf8_of (scalars us))"
  have ub: "\<forall>u\<in>set us. u < 65536"
  proof
    fix u assume "u \<in> set us"
    then obtain x :: "16 word" where "u = unat x" by (auto simp: us_def)
    with unsigned_less [of x] show "u < 65536" by simp
  qed
  from wf have w: "wf16 us" by (simp add: well_formed_def us_def)
  from scalars_wf16 [OF w ub] have sv: "\<forall>cp\<in>set (scalars us). scalar_value cp"
    and u16: "concat (map utf16_of (scalars us)) = us" by simp_all
  have Bb: "\<forall>b\<in>set B. b < 256"
    using sv utf8_of_bytes by (auto simp: B_def)
  have te: "text_encode (c # t) = map of_nat B"
    by (simp add: text_encode_def B_def us_def)
  define binary :: jsstring where "binary = map ucast (map of_nat B :: byte list)"
  have ub2: "map unat binary = B"
    unfolding binary_def using Bb by (induction B) (simp_all add: unat_byte_up)
  have small: "list_all (\<lambda>x. unat x \<le> 255) binary"
    unfolding binary_def using Bb by (induction B) (simp_all add: unat_byte_up)
  have bt: "btoa binary = Inr (b64_encode B)"
    by (simp add: btoa_def small ub2)
  define tok where "tok = replaceAll 61 [] (replaceAll 47 [95] (replaceAll 43 [45] (b64_encode B)))"
  have enc: "base64UrlEncodeUtf8 (c # t) = Inr tok"
    unfolding base64UrlEncodeUtf8_def Let_def te binary_def [symmetric] bt tok_def by simp
  have pad: "replaceAll 95 [47] (replaceAll 45 [43] tok) @ slice (js ''==='') ((length tok + 3) mod 4)
      = b64_encode B"
    unfolding tok_def by (rule url_safe_there_and_back [OF Bb])
  have down: "map unat (map ucast (map of_nat B :: jsstring) :: byte list) = B"
    using Bb by (induction B) (simp_all add: unat_byte_down)
  from c have c': "unat c \<noteq> 65279"
    by (simp add: word_unat_eq_iff)
  have cb: "unat c < 65536" using unsigned_less [of c] by simp
  from w have sb: "strip_bom (scalars us) = scalars us"
    unfolding us_def list.map by (rule scalars_first [OF _ c' cb])
  have td: "text_decode (map ucast (map of_nat B :: jsstring))
      = map of_nat (concat (map utf16_of (strip_bom (utf8_decode 0 0 128 191 B))))"
    by (simp only: text_decode_def down)
  have ud: "utf8_decode 0 0 128 191 B = scalars us"
    unfolding B_def by (rule utf8_decode_concat [OF sv])
  have "text_decode (map ucast (map of_nat B :: jsstring)) = map of_nat us"
    by (simp only: td ud sb u16)
  also have "\<dots> = c # t" by (simp add: us_def comp_def)
  finally have "base64UrlDecodeUtf8 tok = Inr (c # t)"
    unfolding base64UrlDecodeUtf8_def Let_def pad atob_b64_encode [OF Bb] by simp
  with enc show ?thesis by blast
qed

section \<open>Properties of the share link round trip\<close>

lemma round_trip_general:
  assumes v: "valid_invoice iv" and d: "doubles iv"
  shows "round_trip w iv = Inr (after_round_trip iv, w)"
proof -
  define rest where "rest = tl (invoice_text iv)"
  have t: "invoice_text iv = 123 # rest" by (simp add: rest_def invoice_text_def)
  from well_formed_invoice_text [OF d] have "well_formed (123 # rest)" by (simp only: t)
  from base64url_there_and_back [OF this]
  obtain tok where enc: "base64UrlEncodeUtf8 (invoice_text iv) = Inr tok"
    and dec: "base64UrlDecodeUtf8 tok = Inr (invoice_text iv)"
    unfolding t by auto
  have st: "share_token iv = Inr tok"
    by (simp add: share_token_def JSON_stringify_def json_of_invoice [OF v] enc)
  show ?thesis
    by (simp add: round_trip_def st dec JSON_parse_invoice_text [OF d]
        normalizeInvoice_read_invoice [OF v])
qed

lemma reread_survives: "reread d n = n \<longleftrightarrow> survives n" if "is_fin d" "d \<noteq> NegZero"
  using that by (cases n) (auto simp: reread_def survives_def canonical_def is_fin_def)

lemma after_round_trip_same: "after_round_trip iv = iv \<longleftrightarrow> numbers_survive iv"
proof -
  have f: "is_fin (Fin 0)" "Fin 0 \<noteq> NegZero" "is_fin (Fin 1)" "Fin 1 \<noteq> NegZero"
    by (simp_all add: is_fin_def)
  have item: "it\<lparr>quantity := reread (Fin 1) (quantity it), unitPrice := reread (Fin 0) (unitPrice it)\<rparr> = it
      \<longleftrightarrow> survives (quantity it) \<and> survives (unitPrice it)" for it
    using reread_survives [OF f(3,4), of "quantity it"] reread_survives [OF f(1,2), of "unitPrice it"]
    by (cases it) auto
  have its: "map (\<lambda>it. it\<lparr>quantity := reread (Fin 1) (quantity it),
                             unitPrice := reread (Fin 0) (unitPrice it)\<rparr>) xs = xs
      \<longleftrightarrow> list_all (\<lambda>it. survives (quantity it) \<and> survives (unitPrice it)) xs" for xs
    by (induction xs) (simp_all add: item)
  show ?thesis
    using reread_survives [OF f(1,2), of "taxRatePct iv"] its [of "items iv"]
    by (cases iv) (auto simp: after_round_trip_def numbers_survive_def)
qed

text \<open>
  Claim C1, as amended. For every valid invoice (its string fields hold strings, its list
  of items is not empty, its numbers are binary64 values): normalizing the invoice returns
  it unchanged; the share link token of the invoice, decoded with \<open>base64UrlDecodeUtf8\<close>,
  parsed with \<open>JSON.parse\<close> and normalized, is the invoice in which every number that is
  NaN or infinite is replaced by the default of its field and \<open>-0\<close> by \<open>0\<close>, with the same
  ids and no id generated. So the round trip gives the normalized invoice when every number
  of the invoice is finite and not \<open>-0\<close>, and only then.
\<close>

theorem share_link_round_trip:
  assumes "valid_invoice iv" and "items iv \<noteq> []" and "doubles iv"
  shows "normalizeInvoice w (js_of_invoice iv) = Inr (iv, w)
     \<and> round_trip w iv = Inr (after_round_trip iv, w)
     \<and> map id' (items (after_round_trip iv)) = map id' (items iv)
     \<and> (numbers_survive iv \<longrightarrow> round_trip w iv = normalizeInvoice w (js_of_invoice iv))
     \<and> (\<not> numbers_survive iv \<longrightarrow> round_trip w iv \<noteq> normalizeInvoice w (js_of_invoice iv))"
proof -
  note n = normalizeInvoice_valid [OF assms(1), of w]
  note r = round_trip_general [OF assms(1,3), of w]
  have "map id' (items (after_round_trip iv)) = map id' (items iv)"
    by (simp add: after_round_trip_def comp_def)
  with n r after_round_trip_same [of iv] show ?thesis by auto
qed

lemma doubles_example:
  "is_double (Fin 1)" "is_double (Fin 10)" "is_double (Fin 90)" "is_double (Fin 900)"
  using fl_of_int(1) [of 1] fl_of_int(1) [of 10] fl_of_int(1) [of 90] fl_of_int(1) [of 900]
  by (simp_all add: is_double_def)

theorem share_link_round_trip_witness:
  "round_trip world0 (invoice_of_items [item_a, item_b]) = Inr (invoice_of_items [item_a, item_b], world0)"
proof -
  let ?iv = "invoice_of_items [item_a, item_b]"
  have v: "valid_invoice ?iv" by (simp add: valid_invoice_def invoice_of_items_def is_string_def)
  have d: "doubles ?iv"
    by (simp add: doubles_def invoice_of_items_def item_a_def item_b_def doubles_example)
  have s: "numbers_survive ?iv"
    by (simp add: numbers_survive_def survives_def is_fin_def invoice_of_items_def item_a_def
        item_b_def)
  have ne: "items ?iv \<noteq> []" by (simp add: invoice_of_items_def)
  from share_link_round_trip [OF v ne d, of world0] s
  have "round_trip world0 ?iv = normalizeInvoice world0 (js_of_invoice ?iv)"
    and "normalizeInvoice world0 (js_of_invoice ?iv) = Inr (?iv, world0)"
    by blast+
  then show ?thesis by (rule trans)
qed

text \<open>
  Claim C1 as stated fails: an invoice whose first quantity is NaN is a valid invoice, and
  normalizing it returns it unchanged; but \<open>JSON.stringify\<close> writes NaN as \<open>null\<close>, and after
  the round trip the quantity is the default 1.
\<close>

theorem share_link_round_trip_counterexample:
  "valid_invoice nan_invoice
   \<and> normalizeInvoice world0 (js_of_invoice nan_invoice) = Inr (nan_invoice, world0)
   \<and> round_trip world0 nan_invoice =
       Inr (invoice_of_items
             [\<lparr>id' = js ''n'', description = js ''Design'', quantity = Fin 1, unitPrice = Fin 900\<rparr>,
              item_b], world0)
   \<and> quantity (hd (items nan_invoice)) = NaN"
proof -
  have v: "valid_invoice nan_invoice"
    by (simp add: valid_invoice_def nan_invoice_def invoice_of_items_def is_string_def)
  have d: "doubles nan_invoice"
    by (simp add: doubles_def nan_invoice_def invoice_of_items_def item_b_def doubles_example)
      (simp add: is_double_def)
  have a: "after_round_trip nan_invoice = invoice_of_items
             [\<lparr>id' = js ''n'', description = js ''Design'', quantity = Fin 1, unitPrice = Fin 900\<rparr>,
              item_b]"
    by (simp add: after_round_trip_def nan_invoice_def invoice_of_items_def item_b_def reread_def
        is_fin_def canonical_def)
  from normalizeInvoice_valid [OF v, of world0] round_trip_general [OF v d, of world0] v a
  show ?thesis by (simp add: nan_invoice_def invoice_of_items_def)
qed

end
